theory Spec2Isabelle
  imports Main "HOL-Library.List_Lexorder"
begin

section \<open>Strings\<close>

text \<open>
  A Python \<open>str\<close> is a sequence of Unicode code points; a code point is modelled by its
  number. A spreadsheet cell is a string or \<open>None\<close>.
\<close>

type_synonym pystr = "nat list"
type_synonym cell = "pystr option"
type_synonym row = "cell list"

text \<open>
  \<open>str.isspace\<close> on one code point: the characters \<open>str.split()\<close> and
  \<open>str.strip()\<close> treat as whitespace (tab to carriage return, the four separators
  U+001C..U+001F, space, NEL, no-break space and the Unicode space separators).
\<close>

definition py_isspace :: "nat \<Rightarrow> bool" where
  "py_isspace c =
     ((9 \<le> c \<and> c \<le> 13) \<or> (28 \<le> c \<and> c \<le> 32) \<or> c = 133 \<or> c = 160 \<or> c = 5760
      \<or> (8192 \<le> c \<and> c \<le> 8202) \<or> c = 8232 \<or> c = 8233 \<or> c = 8239 \<or> c = 8287
      \<or> c = 12288)"

text \<open>
  \<open>s.split()\<close> with no argument: scan the string, closing the current word at every
  whitespace character and dropping empty words. The first argument is the word read so
  far.
\<close>

fun split_from :: "pystr \<Rightarrow> pystr \<Rightarrow> pystr list" where
  "split_from w [] = (if w = [] then [] else [w])"
| "split_from w (c # cs) =
     (if py_isspace c then (if w = [] then split_from [] cs else w # split_from [] cs)
      else split_from (w @ [c]) cs)"

definition py_split :: "pystr \<Rightarrow> pystr list" where
  "py_split s = split_from [] s"

text \<open>\<open>sep.join(ws)\<close>.\<close>

fun py_join :: "pystr \<Rightarrow> pystr list \<Rightarrow> pystr" where
  "py_join sep [] = []"
| "py_join sep [w] = w"
| "py_join sep (w # v # ws) = w @ sep @ py_join sep (v # ws)"

text \<open>\<open>s.strip() == ""\<close>: every character is whitespace.\<close>

definition strip_is_empty :: "pystr \<Rightarrow> bool" where
  "strip_is_empty s = list_all py_isspace s"

text \<open>\<open>needle in hay\<close> on strings: \<open>needle\<close> occurs in \<open>hay\<close> as a contiguous run.\<close>

fun startswith :: "pystr \<Rightarrow> pystr \<Rightarrow> bool" where
  "startswith s [] = True"
| "startswith [] (p # ps) = False"
| "startswith (c # cs) (p # ps) = (c = p \<and> startswith cs ps)"

fun str_in :: "pystr \<Rightarrow> pystr \<Rightarrow> bool" where
  "str_in needle [] = (needle = [])"
| "str_in needle (c # cs) = (startswith (c # cs) needle \<or> str_in needle cs)"

section \<open>Normalizer\<close>

text \<open>
  \<^verbatim>\<open>
  def normalize_string(s):
      if not s:
          return ""
      return " ".join(s.lower().split())
  \<close>
  \<open>str.lower\<close> is the interpreter's Unicode case mapping; it is the parameter
  \<open>lower\<close> of the model, so every theorem holds for whatever table the interpreter has.
  \<open>not s\<close> is true for \<open>None\<close> and for the empty string.
\<close>

definition normalize_string :: "(pystr \<Rightarrow> pystr) \<Rightarrow> cell \<Rightarrow> pystr" where
  "normalize_string lower s =
     (case s of
        None \<Rightarrow> []
      | Some t \<Rightarrow> if t = [] then [] else py_join [32] (py_split (lower t)))"

text \<open>
  The case mapping on ASCII text, where \<open>str.lower\<close> moves \<open>A..Z\<close> to \<open>a..z\<close> and
  changes nothing else. It instantiates \<open>lower\<close> where a theorem is evaluated.
\<close>

definition ascii_lower :: "pystr \<Rightarrow> pystr" where
  "ascii_lower s = map (\<lambda>c. if 65 \<le> c \<and> c \<le> 90 then c + 32 else c) s"

text \<open>
  The specification's wording of the Normalizer: lowercase, split on any whitespace run,
  rejoin with single spaces. The words of a string are its maximal whitespace-free runs:
  skip the whitespace in front, take the characters up to the next whitespace, and go on
  behind them.
\<close>

function spec_words :: "pystr \<Rightarrow> pystr list" where
  "spec_words s =
     (case dropWhile py_isspace s of
        [] \<Rightarrow> []
      | c # cs \<Rightarrow>
          (c # takeWhile (\<lambda>x. \<not> py_isspace x) cs)
            # spec_words (dropWhile (\<lambda>x. \<not> py_isspace x) cs))"
  by pat_completeness auto
termination
proof (relation "measure length")
  show "wf (measure length)" by simp
next
  fix s :: pystr and c cs
  assume a: "dropWhile py_isspace s = c # cs"
  have "length (dropWhile (\<lambda>x. \<not> py_isspace x) cs) \<le> length cs"
    by (rule length_dropWhile_le)
  moreover have "length (dropWhile py_isspace s) \<le> length s"
    by (rule length_dropWhile_le)
  ultimately show "(dropWhile (\<lambda>x. \<not> py_isspace x) cs, s) \<in> measure length"
    using a by simp
qed

definition spec_normalize :: "(pystr \<Rightarrow> pystr) \<Rightarrow> pystr \<Rightarrow> pystr" where
  "spec_normalize lower s = py_join [32] (spec_words (lower s))"

section \<open>Tabular Reader\<close>

type_synonym path = pystr

text \<open>
  What \<open>csv.reader\<close> delivers for a path: the parsed rows, or the rows parsed before an
  exception (a missing file delivers none).
\<close>

datatype csv_source = Csv_ok "row list" | Csv_failed "row list"

fun delivered :: "csv_source \<Rightarrow> row list" where
  "delivered (Csv_ok rs) = rs"
| "delivered (Csv_failed rs) = rs"

fun raised :: "csv_source \<Rightarrow> bool" where
  "raised (Csv_ok rs) = False"
| "raised (Csv_failed rs) = True"

text \<open>
  \<open>not r or all((c is None or str(c).strip() == "") for c in r)\<close>: the rows
  \<open>read_csv_file_simple\<close> skips.
\<close>

definition cell_blank :: "cell \<Rightarrow> bool" where
  "cell_blank c = (case c of None \<Rightarrow> True | Some s \<Rightarrow> strip_is_empty s)"

definition row_blank :: "row \<Rightarrow> bool" where
  "row_blank r = (r = [] \<or> list_all cell_blank r)"

fun keep_rows :: "row list \<Rightarrow> row list \<Rightarrow> row list" where
  "keep_rows [] rows = rows"
| "keep_rows (r # rs) rows =
     (if row_blank r then keep_rows rs rows else keep_rows rs (rows @ [r]))"

text \<open>
  \<open>read_csv_file_simple\<close> returns the rows collected so far also when reading raised;
  the second component says whether the failure was handed to \<open>error_callback\<close>.
\<close>

definition read_csv_file_simple :: "(path \<Rightarrow> csv_source) \<Rightarrow> path \<Rightarrow> row list \<times> bool" where
  "read_csv_file_simple fs p = (keep_rows (delivered (fs p)) [], raised (fs p))"

section \<open>Matcher\<close>

text \<open>
  The marker text of the Locman export (the Russian for "included in": U+041A U+0443
  U+0434 U+0430, a space, U+0432 U+0445 U+043E U+0434 U+0438 U+0442), as code points.
\<close>

definition marker :: pystr where
  "marker = [1050, 1091, 1076, 1072, 32, 1074, 1093, 1086, 1076, 1080, 1090]"

text \<open>\<open>any(MARKER in str(cell) for cell in row if cell is not None)\<close>\<close>

definition has_marker :: "row \<Rightarrow> bool" where
  "has_marker r = list_ex (\<lambda>c. case c of None \<Rightarrow> False | Some s \<Rightarrow> str_in marker s) r"

text \<open>A Locman entry: \<open>(name_loc, key_loc, loc_path)\<close>.\<close>

type_synonym loc_entry = "cell \<times> pystr \<times> path"

text \<open>The body of the loop over the rows of one Locman file.\<close>

definition locman_row :: "(pystr \<Rightarrow> pystr) \<Rightarrow> path \<Rightarrow> loc_entry list \<Rightarrow> row \<Rightarrow> loc_entry list" where
  "locman_row lower lp loc_entries r =
     (if has_marker r then loc_entries
      else if length r < 5 then loc_entries
      else if cell_blank (r ! 4) then loc_entries
      else if length r < 2 then loc_entries
      else
        (let name_loc = r ! 1; key_loc = normalize_string lower name_loc
         in if key_loc \<noteq> [] then loc_entries @ [(name_loc, key_loc, lp)] else loc_entries))"

fun locman_rows :: "(pystr \<Rightarrow> pystr) \<Rightarrow> path \<Rightarrow> row list \<Rightarrow> loc_entry list \<Rightarrow> loc_entry list" where
  "locman_rows lower lp [] loc_entries = loc_entries"
| "locman_rows lower lp (r # rs) loc_entries =
     locman_rows lower lp rs (locman_row lower lp loc_entries r)"

text \<open>The loop over \<open>locman_csvs\<close>; \<open>data_loc[1:]\<close> drops the header row.\<close>

fun locman_files ::
  "(pystr \<Rightarrow> pystr) \<Rightarrow> (path \<Rightarrow> csv_source) \<Rightarrow> path list \<Rightarrow> loc_entry list \<Rightarrow> loc_entry list" where
  "locman_files lower fs [] loc_entries = loc_entries"
| "locman_files lower fs (lp # lps) loc_entries =
     locman_files lower fs lps
       (locman_rows lower lp (drop 1 (fst (read_csv_file_simple fs lp))) loc_entries)"

text \<open>\<open>key_loc in key_1c or key_1c in key_loc\<close>\<close>

definition keys_match :: "pystr \<Rightarrow> pystr \<Rightarrow> bool" where
  "keys_match key_loc key_1c = (str_in key_loc key_1c \<or> str_in key_1c key_loc)"

text \<open>
  The four results. \<open>locman_options\<close> is a dictionary whose values are lists; it is kept
  as an association list in insertion order.
\<close>

record cmp_state =
  matches :: "(cell \<times> cell \<times> path) list"
  nomatches :: "(cell \<times> path) list"
  nomatches_1c :: "cell list"
  locman_options :: "((cell \<times> path) \<times> cell list) list"

text \<open>\<open>if loc_key not in locman_options: locman_options[loc_key] = []\<close>\<close>

definition options_init ::
  "((cell \<times> path) \<times> cell list) list \<Rightarrow> cell \<times> path \<Rightarrow> ((cell \<times> path) \<times> cell list) list" where
  "options_init opts loc_key =
     (if map_of opts loc_key = None then opts @ [(loc_key, [])] else opts)"

text \<open>
  \<open>if name_1c not in locman_options[loc_key]: locman_options[loc_key].append(name_1c)\<close>
\<close>

definition options_add ::
  "((cell \<times> path) \<times> cell list) list \<Rightarrow> cell \<times> path \<Rightarrow> cell \<Rightarrow> ((cell \<times> path) \<times> cell list) list" where
  "options_add opts loc_key name_1c =
     map (\<lambda>(k, v). if k = loc_key \<and> name_1c \<notin> set v then (k, v @ [name_1c]) else (k, v)) opts"

text \<open>
  The body of the loop over the 1C rows for one Locman entry; the flag is \<open>found\<close>.
\<close>

definition match_row ::
  "(pystr \<Rightarrow> pystr) \<Rightarrow> loc_entry \<Rightarrow> cmp_state \<times> bool \<Rightarrow> row \<Rightarrow> cmp_state \<times> bool" where
  "match_row lower e sf row1 =
     (case e of (name_loc, key_loc, lp) \<Rightarrow>
      case sf of (st, found) \<Rightarrow>
        if length row1 < 2 then (st, found)
        else
          (let name_1c = row1 ! 1; key_1c = normalize_string lower name_1c
           in if key_1c = [] then (st, found)
              else if keys_match key_loc key_1c then
                (st\<lparr>matches := matches st @ [(name_1c, name_loc, lp)],
                    locman_options := options_add (locman_options st) (name_loc, lp) name_1c\<rparr>,
                 True)
              else (st, found)))"

fun match_rows ::
  "(pystr \<Rightarrow> pystr) \<Rightarrow> loc_entry \<Rightarrow> row list \<Rightarrow> cmp_state \<times> bool \<Rightarrow> cmp_state \<times> bool" where
  "match_rows lower e [] sf = sf"
| "match_rows lower e (row1 # rest) sf = match_rows lower e rest (match_row lower e sf row1)"

text \<open>The body of the loop over \<open>loc_entries\<close>.\<close>

definition match_entry :: "(pystr \<Rightarrow> pystr) \<Rightarrow> row list \<Rightarrow> cmp_state \<Rightarrow> loc_entry \<Rightarrow> cmp_state" where
  "match_entry lower rows1 st e =
     (case e of (name_loc, key_loc, lp) \<Rightarrow>
        (let st1 = st\<lparr>locman_options := options_init (locman_options st) (name_loc, lp)\<rparr>
         in case match_rows lower e rows1 (st1, False) of
              (st2, found) \<Rightarrow>
                if \<not> found then st2\<lparr>nomatches := nomatches st2 @ [(name_loc, lp)]\<rparr> else st2))"

fun match_entries ::
  "(pystr \<Rightarrow> pystr) \<Rightarrow> row list \<Rightarrow> loc_entry list \<Rightarrow> cmp_state \<Rightarrow> cmp_state" where
  "match_entries lower rows1 [] st = st"
| "match_entries lower rows1 (e # es) st =
     match_entries lower rows1 es (match_entry lower rows1 st e)"

text \<open>The inner loop of the second pass: leaves with \<open>found_1c = True\<close> at the first hit.\<close>

fun found_1c :: "pystr \<Rightarrow> loc_entry list \<Rightarrow> bool" where
  "found_1c key_1c [] = False"
| "found_1c key_1c ((name_loc, key_loc, lp) # es) =
     (if keys_match key_loc key_1c then True else found_1c key_1c es)"

definition unmatched_row ::
  "(pystr \<Rightarrow> pystr) \<Rightarrow> loc_entry list \<Rightarrow> cmp_state \<Rightarrow> row \<Rightarrow> cmp_state" where
  "unmatched_row lower loc_entries st row1 =
     (if length row1 < 2 then st
      else
        (let name_1c = row1 ! 1; key_1c = normalize_string lower name_1c
         in if key_1c = [] then st
            else if \<not> found_1c key_1c loc_entries
              then st\<lparr>nomatches_1c := nomatches_1c st @ [name_1c]\<rparr>
              else st))"

fun unmatched_rows ::
  "(pystr \<Rightarrow> pystr) \<Rightarrow> loc_entry list \<Rightarrow> row list \<Rightarrow> cmp_state \<Rightarrow> cmp_state" where
  "unmatched_rows lower loc_entries [] st = st"
| "unmatched_rows lower loc_entries (row1 # rest) st =
     unmatched_rows lower loc_entries rest (unmatched_row lower loc_entries st row1)"

definition loc_entries_of ::
  "(pystr \<Rightarrow> pystr) \<Rightarrow> (path \<Rightarrow> csv_source) \<Rightarrow> path list \<Rightarrow> loc_entry list" where
  "loc_entries_of lower fs locman_csvs = locman_files lower fs locman_csvs []"

definition compare_files_1c_locman ::
  "(pystr \<Rightarrow> pystr) \<Rightarrow> (path \<Rightarrow> csv_source) \<Rightarrow> path \<Rightarrow> path list \<Rightarrow> cmp_state" where
  "compare_files_1c_locman lower fs file1_csv locman_csvs =
     (let data_1c = fst (read_csv_file_simple fs file1_csv);
          loc_entries = loc_entries_of lower fs locman_csvs;
          st1 = match_entries lower (drop 1 data_1c) loc_entries
                  \<lparr>matches = [], nomatches = [], nomatches_1c = [], locman_options = []\<rparr>
      in unmatched_rows lower loc_entries (drop 1 data_1c) st1)"

section \<open>Mapping Store\<close>

text \<open>
  A row of the table \<open>mappings\<close>: \<open>id\<close>, \<open>name_loc\<close>, \<open>loc_path\<close>, \<open>name_1c\<close>,
  \<open>created_at\<close>, \<open>updated_at\<close>. The timestamps are ISO texts.
\<close>

record db_row =
  col_id :: nat
  col_name_loc :: pystr
  col_loc_path :: pystr
  col_name_1c :: pystr
  col_created_at :: pystr
  col_updated_at :: pystr

text \<open>The table with the counter its AUTOINCREMENT key is drawn from.\<close>

record table =
  rows :: "db_row list"
  seq :: nat

text \<open>The database file: \<open>None\<close> while \<open>DB_PATH\<close> does not exist.\<close>

type_synonym store = "table option"

type_synonym ident = "pystr \<times> pystr"

text \<open>
  The argument of \<open>save_mappings\<close>: the dictionary's items in iteration order, each set
  of 1C names in its iteration order.
\<close>

type_synonym mappings = "(ident \<times> pystr list) list"

datatype sql_error = IntegrityError | OperationalError

definition row_ident :: "db_row \<Rightarrow> ident" where
  "row_ident r = (col_name_loc r, col_loc_path r)"

definition table_rows :: "store \<Rightarrow> db_row list" where
  "table_rows s = (case s of None \<Rightarrow> [] | Some t \<Rightarrow> rows t)"

text \<open>\<open>CREATE TABLE IF NOT EXISTS\<close>, committed: an existing table is left as it is.\<close>

definition init_database :: "store \<Rightarrow> table" where
  "init_database s = (case s of None \<Rightarrow> \<lparr>rows = [], seq = 0\<rparr> | Some t \<Rightarrow> t)"

text \<open>
  \<open>DELETE FROM mappings WHERE name_loc = ? AND loc_path = ?\<close>, with its \<open>rowcount\<close>.
\<close>

definition sql_delete_identity :: "table \<Rightarrow> pystr \<Rightarrow> pystr \<Rightarrow> table \<times> nat" where
  "sql_delete_identity t n p =
     (t\<lparr>rows := filter (\<lambda>r. \<not> (col_name_loc r = n \<and> col_loc_path r = p)) (rows t)\<rparr>,
      length (filter (\<lambda>r. col_name_loc r = n \<and> col_loc_path r = p) (rows t)))"

text \<open>\<open>DELETE FROM mappings\<close>, with its \<open>rowcount\<close>.\<close>

definition sql_delete_all :: "table \<Rightarrow> table \<times> nat" where
  "sql_delete_all t = (t\<lparr>rows := []\<rparr>, length (rows t))"

text \<open>
  \<open>INSERT INTO mappings (name_loc, loc_path, name_1c, created_at, updated_at)\<close>: refused
  with \<open>IntegrityError\<close> when the triple is in the table (the \<open>UNIQUE\<close> constraint),
  else the row is added under the next key.
\<close>

definition sql_insert :: "table \<Rightarrow> pystr \<Rightarrow> pystr \<Rightarrow> pystr \<Rightarrow> pystr \<Rightarrow> sql_error + table" where
  "sql_insert t n p c now =
     (if list_ex (\<lambda>r. col_name_loc r = n \<and> col_loc_path r = p \<and> col_name_1c r = c) (rows t)
      then Inl IntegrityError
      else Inr \<lparr>rows = rows t @
                  [\<lparr>col_id = seq t + 1, col_name_loc = n, col_loc_path = p, col_name_1c = c,
                    col_created_at = now, col_updated_at = now\<rparr>],
                seq = seq t + 1\<rparr>)"

text \<open>
  \<open>UPDATE mappings SET updated_at = ? WHERE name_loc = ? AND loc_path = ? AND name_1c = ?\<close>
\<close>

definition sql_update_stamp :: "table \<Rightarrow> pystr \<Rightarrow> pystr \<Rightarrow> pystr \<Rightarrow> pystr \<Rightarrow> table" where
  "sql_update_stamp t now n p c =
     t\<lparr>rows := map (\<lambda>r. if col_name_loc r = n \<and> col_loc_path r = p \<and> col_name_1c r = c
                         then r\<lparr>col_updated_at := now\<rparr> else r) (rows t)\<rparr>"

text \<open>
  A connection: the table as committed and the table as the open transaction sees it.
  Statements change the second; \<open>commit\<close> makes it the first, \<open>rollback\<close> throws it
  away, and after \<open>close\<close> the file holds what was committed.
\<close>

record connection =
  committed :: table
  working :: table

definition get_connection :: "table \<Rightarrow> connection" where
  "get_connection t = \<lparr>committed = t, working = t\<rparr>"

definition conn_commit :: "connection \<Rightarrow> connection" where
  "conn_commit c = c\<lparr>committed := working c\<rparr>"

definition conn_rollback :: "connection \<Rightarrow> connection" where
  "conn_rollback c = c\<lparr>working := committed c\<rparr>"

definition conn_close :: "connection \<Rightarrow> store" where
  "conn_close c = Some (committed c)"

text \<open>
  The state of one \<open>save_mappings\<close> batch: the connection, \<open>count\<close>, and the number of
  statements run so far. An unexpected failure of the store is injected by \<open>fail_at\<close>:
  the statement with that number (the final \<open>commit\<close> included) raises
  \<open>OperationalError\<close>.
\<close>

record batch =
  conn :: connection
  cnt :: nat
  executed :: nat

text \<open>
  The loop over one set of 1C names. The result carries the exception that left the
  loop, if any, with the state reached.
\<close>

fun insert_names ::
  "nat option \<Rightarrow> pystr \<Rightarrow> pystr \<Rightarrow> pystr \<Rightarrow> pystr list \<Rightarrow> batch \<Rightarrow> sql_error option \<times> batch" where
  "insert_names fail_at now n p [] b = (None, b)"
| "insert_names fail_at now n p (c # cs) b =
     (if fail_at = Some (executed b) then (Some OperationalError, b)
      else
        (case sql_insert (working (conn b)) n p c now of
           Inr t \<Rightarrow>
             insert_names fail_at now n p cs
               (b\<lparr>conn := (conn b)\<lparr>working := t\<rparr>, cnt := cnt b + 1, executed := executed b + 1\<rparr>)
         | Inl e \<Rightarrow>
             if e = IntegrityError then
               (if fail_at = Some (executed b + 1)
                  then (Some OperationalError, b\<lparr>executed := executed b + 1\<rparr>)
                else
                  insert_names fail_at now n p cs
                    (b\<lparr>conn := (conn b)\<lparr>working := sql_update_stamp (working (conn b)) now n p c\<rparr>,
                       executed := executed b + 2\<rparr>))
             else (Some e, b)))"

text \<open>The loop over \<open>mappings.items()\<close>: delete the identity's rows, then insert.\<close>

fun save_items :: "nat option \<Rightarrow> pystr \<Rightarrow> mappings \<Rightarrow> batch \<Rightarrow> sql_error option \<times> batch" where
  "save_items fail_at now [] b = (None, b)"
| "save_items fail_at now (((n, p), names) # rest) b =
     (if fail_at = Some (executed b) then (Some OperationalError, b)
      else
        (case insert_names fail_at now n p names
                (b\<lparr>conn := (conn b)\<lparr>working := fst (sql_delete_identity (working (conn b)) n p)\<rparr>,
                   executed := executed b + 1\<rparr>) of
           (Some e, b1) \<Rightarrow> (Some e, b1)
         | (None, b1) \<Rightarrow> save_items fail_at now rest b1))"

text \<open>
  \<^verbatim>\<open>
  init_database(); conn = get_connection(); count = 0
  try:
      for ... in mappings.items(): ...
      conn.commit()
  except Exception as e:
      conn.rollback(); raise e
  finally:
      conn.close()
  return count
  \<close>
  The result is the raised exception or \<open>count\<close>, with the store as the call leaves it.
\<close>

definition save_mappings ::
  "nat option \<Rightarrow> pystr \<Rightarrow> mappings \<Rightarrow> store \<Rightarrow> (sql_error + nat) \<times> store" where
  "save_mappings fail_at current_time ms s =
     (case save_items fail_at current_time ms
             \<lparr>conn = get_connection (init_database s), cnt = 0, executed = 0\<rparr> of
        (Some e, b) \<Rightarrow> (Inl e, conn_close (conn_rollback (conn b)))
      | (None, b) \<Rightarrow>
          if fail_at = Some (executed b)
            then (Inl OperationalError, conn_close (conn_rollback (conn b)))
          else (Inr (cnt b), conn_close (conn_commit (conn b))))"

text \<open>
  The loop of \<open>load_mappings\<close> over the fetched rows, building the dictionary of sets.
\<close>

fun load_rows :: "db_row list \<Rightarrow> (ident \<rightharpoonup> pystr set) \<Rightarrow> (ident \<rightharpoonup> pystr set)" where
  "load_rows [] m = m"
| "load_rows (r # rs) m =
     (let key = (col_name_loc r, col_loc_path r);
          m1 = (if m key = None then m(key \<mapsto> {}) else m)
      in load_rows rs
           (m1(key \<mapsto> insert (col_name_1c r) (case m1 key of None \<Rightarrow> {} | Some names \<Rightarrow> names))))"

text \<open>
  \<open>SELECT name_loc, loc_path, name_1c FROM mappings ORDER BY updated_at DESC\<close>
\<close>

definition select_by_updated_desc :: "table \<Rightarrow> db_row list" where
  "select_by_updated_desc t = rev (sort_key col_updated_at (rows t))"

definition load_mappings :: "store \<Rightarrow> (ident \<rightharpoonup> pystr set)" where
  "load_mappings s =
     (case s of None \<Rightarrow> Map.empty | Some t \<Rightarrow> load_rows (select_by_updated_desc t) Map.empty)"

definition get_mappings_for_locman :: "pystr \<Rightarrow> pystr \<Rightarrow> store \<Rightarrow> pystr set" where
  "get_mappings_for_locman n p s =
     (case s of
        None \<Rightarrow> {}
      | Some t \<Rightarrow> set (map col_name_1c (filter (\<lambda>r. col_name_loc r = n \<and> col_loc_path r = p) (rows t))))"

text \<open>\<open>if name_loc and loc_path\<close>: an argument counts when it is a non-empty string.\<close>

definition truthy :: "pystr option \<Rightarrow> bool" where
  "truthy a = (case a of None \<Rightarrow> False | Some x \<Rightarrow> x \<noteq> [])"

definition delete_mappings :: "pystr option \<Rightarrow> pystr option \<Rightarrow> store \<Rightarrow> nat \<times> store" where
  "delete_mappings name_loc loc_path s =
     (case s of
        None \<Rightarrow> (0, None)
      | Some t \<Rightarrow>
          (let c = get_connection t;
               (t1, rowcount) =
                 (if truthy name_loc \<and> truthy loc_path
                    then sql_delete_identity (working c) (the name_loc) (the loc_path)
                  else sql_delete_all (working c))
           in (rowcount, conn_close (conn_commit (c\<lparr>working := t1\<rparr>)))))"

definition get_all_mappings_count :: "store \<Rightarrow> nat" where
  "get_all_mappings_count s = (case s of None \<Rightarrow> 0 | Some t \<Rightarrow> length (rows t))"

text \<open>
  The dictionary a \<open>mappings\<close> argument stands for, and the same without the identities
  whose set is empty.
\<close>

definition mappings_dict :: "mappings \<Rightarrow> (ident \<rightharpoonup> pystr set)" where
  "mappings_dict ms = map_of (map (\<lambda>(k, names). (k, set names)) ms)"

definition nonempty_dict :: "mappings \<Rightarrow> (ident \<rightharpoonup> pystr set)" where
  "nonempty_dict ms = map_of (map (\<lambda>(k, names). (k, set names)) (filter (\<lambda>(k, names). names \<noteq> []) ms))"

section \<open>The specification's wording of the Matcher's filters\<close>

text \<open>
  A 1C data row that is considered: at least 2 columns and a non-empty normalized key
  (the key of the cell at column index 1).
\<close>

definition spec_onec_considered :: "(pystr \<Rightarrow> pystr) \<Rightarrow> row \<Rightarrow> bool" where
  "spec_onec_considered lower r = (2 \<le> length r \<and> normalize_string lower (r ! 1) \<noteq> [])"

text \<open>
  A Locman row that is promoted to an entry: at least 5 columns, the cell at column index
  4 neither \<open>None\<close> nor made of whitespace only, no cell holding the marker text, and a
  non-empty normalized display name at column index 1.
\<close>

definition spec_locman_promoted :: "(pystr \<Rightarrow> pystr) \<Rightarrow> row \<Rightarrow> bool" where
  "spec_locman_promoted lower r =
     (5 \<le> length r
      \<and> (\<exists>s. r ! 4 = Some s \<and> (\<exists>x \<in> set s. \<not> py_isspace x))
      \<and> \<not> (\<exists>c \<in> set r. \<exists>s pre post. c = Some s \<and> s = pre @ marker @ post)
      \<and> normalize_string lower (r ! 1) \<noteq> [])"

text \<open>The entry a promoted row of the file \<open>lp\<close> becomes.\<close>

definition entry_of :: "(pystr \<Rightarrow> pystr) \<Rightarrow> path \<Rightarrow> row \<Rightarrow> loc_entry" where
  "entry_of lower lp r = (r ! 1, normalize_string lower (r ! 1), lp)"

text \<open>The rows of a source behind its header row, as the Tabular Reader delivers them.\<close>

definition data_rows :: "(path \<Rightarrow> csv_source) \<Rightarrow> path \<Rightarrow> row list" where
  "data_rows fs p = drop 1 (fst (read_csv_file_simple fs p))"

text \<open>
  A 1C row that is considered and whose key matches the Locman key \<open>key_loc\<close>.
\<close>

definition hits :: "(pystr \<Rightarrow> pystr) \<Rightarrow> pystr \<Rightarrow> row \<Rightarrow> bool" where
  "hits lower key_loc r =
     (spec_onec_considered lower r \<and> keys_match key_loc (normalize_string lower (r ! 1)))"

text \<open>
  A small file system for evaluating the Matcher: the 1C file \<open>"1c"\<close> with the rows
  \<open>id;name\<close>, \<open>x;Bolt M6\<close>, \<open>z;Nut\<close>, and the Locman file \<open>"l"\<close> with the rows
  \<open>id;name;a;b;c\<close>, \<open>x;bolt;;;y\<close>, \<open>x;Pin;;;y\<close> and \<open>x;bolt;;;" "\<close> (a blank fifth
  column). Every other path cannot be read.
\<close>

definition bolt_fs :: "path \<Rightarrow> csv_source" where
  "bolt_fs p =
     (if p = [49, 99] then
        Csv_ok [[Some [105, 100], Some [110, 97, 109, 101]],
                [Some [120], Some [66, 111, 108, 116, 32, 77, 54]],
                [Some [122], Some [78, 117, 116]]]
      else if p = [108] then
        Csv_ok [[Some [105, 100], Some [110, 97, 109, 101], Some [97], Some [98], Some [99]],
                [Some [120], Some [98, 111, 108, 116], Some [], Some [], Some [121]],
                [Some [120], Some [80, 105, 110], Some [], Some [], Some [121]],
                [Some [120], Some [98, 111, 108, 116], Some [], Some [], Some [32]]]
      else Csv_failed [])"

section \<open>Reading the store\<close>

text \<open>The 1C names the rows of identity \<open>k\<close> hold, and those rows themselves.\<close>

definition names_of :: "ident \<Rightarrow> db_row list \<Rightarrow> pystr set" where
  "names_of k rs = set (map col_name_1c (filter (\<lambda>r. row_ident r = k) rs))"

definition rows_of :: "ident \<Rightarrow> db_row list \<Rightarrow> db_row list" where
  "rows_of k rs = filter (\<lambda>r. row_ident r = k) rs"

text \<open>
  The state in which \<open>save_mappings\<close> enters its batch, and the number of statements a
  batch runs before its \<open>commit\<close> when nothing fails: the statements are numbered from 0,
  and the \<open>commit\<close> of that batch has this number.
\<close>

definition start_batch :: "store \<Rightarrow> batch" where
  "start_batch s = \<lparr>conn = get_connection (init_database s), cnt = 0, executed = 0\<rparr>"

definition batch_statements :: "pystr \<Rightarrow> mappings \<Rightarrow> store \<Rightarrow> nat" where
  "batch_statements now ms s = executed (snd (save_items None now ms (start_batch s)))"

text \<open>
  Stores and arguments for evaluating the Mapping Store. \<open>ex_ms1\<close> maps \<open>("a", "p")\<close> to
  \<open>{"x", "y"}\<close> and \<open>("b", "p")\<close> to \<open>{"z"}\<close>; \<open>ex_ms2\<close> maps \<open>("a", "p")\<close> to
  \<open>{"y", "w"}\<close>, and \<open>ex_ms3\<close> does so too and maps \<open>("b", "p")\<close> to \<open>{"z"}\<close> again.
  \<open>ex_store1\<close> is the store after saving \<open>ex_ms1\<close> at time \<open>"1"\<close> into no
  database, \<open>ex_store2\<close> the store after then saving \<open>ex_ms2\<close> at time \<open>"2"\<close>.
  \<open>ex_store3\<close> holds a row of the identity \<open>("", "p")\<close> and a row of \<open>("a", "q")\<close>.
\<close>

definition ex_ms1 :: mappings where
  "ex_ms1 = [(([97], [112]), [[120], [121]]), (([98], [112]), [[122]])]"

definition ex_ms2 :: mappings where
  "ex_ms2 = [(([97], [112]), [[121], [119]])]"

definition ex_ms3 :: mappings where
  "ex_ms3 = [(([97], [112]), [[121], [119]]), (([98], [112]), [[122]])]"

definition ex_store1 :: store where
  "ex_store1 =
     Some \<lparr>rows =
            [\<lparr>col_id = 1, col_name_loc = [97], col_loc_path = [112], col_name_1c = [120],
              col_created_at = [49], col_updated_at = [49]\<rparr>,
             \<lparr>col_id = 2, col_name_loc = [97], col_loc_path = [112], col_name_1c = [121],
              col_created_at = [49], col_updated_at = [49]\<rparr>,
             \<lparr>col_id = 3, col_name_loc = [98], col_loc_path = [112], col_name_1c = [122],
              col_created_at = [49], col_updated_at = [49]\<rparr>],
          seq = 3\<rparr>"

definition ex_store2 :: store where
  "ex_store2 =
     Some \<lparr>rows =
            [\<lparr>col_id = 3, col_name_loc = [98], col_loc_path = [112], col_name_1c = [122],
              col_created_at = [49], col_updated_at = [49]\<rparr>,
             \<lparr>col_id = 4, col_name_loc = [97], col_loc_path = [112], col_name_1c = [121],
              col_created_at = [50], col_updated_at = [50]\<rparr>,
             \<lparr>col_id = 5, col_name_loc = [97], col_loc_path = [112], col_name_1c = [119],
              col_created_at = [50], col_updated_at = [50]\<rparr>],
          seq = 5\<rparr>"

definition ex_store3 :: store where
  "ex_store3 =
     Some \<lparr>rows =
            [\<lparr>col_id = 1, col_name_loc = [], col_loc_path = [112], col_name_1c = [120],
              col_created_at = [49], col_updated_at = [49]\<rparr>,
             \<lparr>col_id = 2, col_name_loc = [97], col_loc_path = [113], col_name_1c = [121],
              col_created_at = [49], col_updated_at = [49]\<rparr>],
          seq = 2\<rparr>"

section \<open>Properties of the Normalizer\<close>

declare spec_words.simps [simp del]

lemma split_from_word:
  "w \<noteq> [] \<Longrightarrow> split_from w s =
     (w @ takeWhile (\<lambda>x. \<not> py_isspace x) s) # split_from [] (dropWhile (\<lambda>x. \<not> py_isspace x) s)"
  by (induction s arbitrary: w) auto

lemma split_from_skip: "split_from [] s = split_from [] (dropWhile py_isspace s)"
  by (induction s) auto

lemma split_from_spec_words: "split_from [] s = spec_words s"
proof (induction s rule: spec_words.induct)
  case (1 s)
  show ?case
  proof (cases "dropWhile py_isspace s")
    case Nil
    have "split_from [] s = split_from [] (dropWhile py_isspace s)"
      by (rule split_from_skip)
    also have "\<dots> = []" by (simp add: Nil)
    also have "\<dots> = spec_words s" by (simp add: spec_words.simps [of s] Nil)
    finally show ?thesis .
  next
    case (Cons c cs)
    then have nc: "\<not> py_isspace c"
      by (metis hd_dropWhile list.sel(1) list.distinct(1))
    have "split_from [] s = split_from [] (dropWhile py_isspace s)"
      by (rule split_from_skip)
    also have "\<dots> = split_from [] (c # cs)" by (simp add: Cons)
    also have "\<dots> = split_from [c] cs" using nc by simp
    also have "\<dots> = (c # takeWhile (\<lambda>x. \<not> py_isspace x) cs)
                        # split_from [] (dropWhile (\<lambda>x. \<not> py_isspace x) cs)"
      using split_from_word [of "[c]" cs] by simp
    also have "\<dots> = spec_words s"
      using "1.IH" [OF Cons] by (simp add: spec_words.simps [of s] Cons)
    finally show ?thesis .
  qed
qed

lemma spec_words_wordlike:
  "w \<in> set (spec_words s) \<Longrightarrow> w \<noteq> [] \<and> \<not> list_ex py_isspace w"
proof (induction s arbitrary: w rule: spec_words.induct)
  case (1 s)
  show ?case
  proof (cases "dropWhile py_isspace s")
    case Nil
    with "1.prems" show ?thesis by (simp add: spec_words.simps [of s])
  next
    case (Cons c cs)
    then have nc: "\<not> py_isspace c"
      by (metis hd_dropWhile list.sel(1) list.distinct(1))
    from "1.prems" Cons
    have "w = c # takeWhile (\<lambda>x. \<not> py_isspace x) cs
          \<or> w \<in> set (spec_words (dropWhile (\<lambda>x. \<not> py_isspace x) cs))"
      by (simp add: spec_words.simps [of s])
    then show ?thesis
    proof
      assume "w = c # takeWhile (\<lambda>x. \<not> py_isspace x) cs"
      then show ?thesis using nc
        by (auto simp: list_ex_iff dest: set_takeWhileD)
    next
      assume "w \<in> set (spec_words (dropWhile (\<lambda>x. \<not> py_isspace x) cs))"
      then show ?thesis using "1.IH" [OF Cons] by blast
    qed
  qed
qed

lemma filter_dropWhile_space:
  "filter (\<lambda>x. \<not> py_isspace x) (dropWhile py_isspace s) = filter (\<lambda>x. \<not> py_isspace x) s"
  by (induction s) auto

lemma filter_take_drop_word:
  "takeWhile (\<lambda>x. \<not> py_isspace x) cs @ filter (\<lambda>x. \<not> py_isspace x) (dropWhile (\<lambda>x. \<not> py_isspace x) cs)
     = filter (\<lambda>x. \<not> py_isspace x) cs"
  by (induction cs) auto

lemma concat_spec_words: "concat (spec_words s) = filter (\<lambda>x. \<not> py_isspace x) s"
proof (induction s rule: spec_words.induct)
  case (1 s)
  show ?case
  proof (cases "dropWhile py_isspace s")
    case Nil
    then have "filter (\<lambda>x. \<not> py_isspace x) s = []"
      using filter_dropWhile_space [of s] by simp
    then show ?thesis by (simp add: spec_words.simps [of s] Nil)
  next
    case (Cons c cs)
    then have nc: "\<not> py_isspace c"
      by (metis hd_dropWhile list.sel(1) list.distinct(1))
    have "concat (spec_words s) =
            c # takeWhile (\<lambda>x. \<not> py_isspace x) cs
              @ filter (\<lambda>x. \<not> py_isspace x) (dropWhile (\<lambda>x. \<not> py_isspace x) cs)"
      using "1.IH" [OF Cons] by (simp add: spec_words.simps [of s] Cons)
    also have "\<dots> = filter (\<lambda>x. \<not> py_isspace x) (c # cs)"
      using nc by (simp add: filter_take_drop_word)
    also have "\<dots> = filter (\<lambda>x. \<not> py_isspace x) s"
      using filter_dropWhile_space [of s] Cons by simp
    finally show ?thesis .
  qed
qed

text \<open>
  C8. \<open>normalize_string\<close> is a function of its argument alone (as every function of
  the model is). On \<open>None\<close> and on the empty string it returns the empty string. On every
  other string it returns the words of the lowercased input joined by single spaces,
  where the words are the maximal whitespace-free runs: each word is non-empty and holds
  no whitespace, and together they are the lowercased input with all whitespace
  (leading, trailing and inner runs) taken out. Wherever the case mapping sends
  \<open>"  A   b\tc "\<close> to \<open>"  a   b\tc "\<close>, as \<open>str.lower\<close> does, the result on that
  string is \<open>"a b c"\<close>.
\<close>

theorem normalize_string_contract:
  "normalize_string lower None = []
   \<and> normalize_string lower (Some []) = []
   \<and> normalize_string lower (Some s) = (if s = [] then [] else spec_normalize lower s)
   \<and> (\<forall>w \<in> set (spec_words (lower s)). w \<noteq> [] \<and> \<not> list_ex py_isspace w)
   \<and> concat (spec_words (lower s)) = filter (\<lambda>c. \<not> py_isspace c) (lower s)
   \<and> (lower [32, 32, 65, 32, 32, 32, 98, 9, 99, 32] = [32, 32, 97, 32, 32, 32, 98, 9, 99, 32]
        \<longrightarrow> normalize_string lower (Some [32, 32, 65, 32, 32, 32, 98, 9, 99, 32])
              = [97, 32, 98, 32, 99])"
proof -
  have a: "normalize_string lower (Some s) = (if s = [] then [] else spec_normalize lower s)"
    by (simp add: normalize_string_def spec_normalize_def py_split_def split_from_spec_words)
  have b: "\<forall>w \<in> set (spec_words (lower s)). w \<noteq> [] \<and> \<not> list_ex py_isspace w"
    using spec_words_wordlike by blast
  have c: "lower [32, 32, 65, 32, 32, 32, 98, 9, 99, 32] = [32, 32, 97, 32, 32, 32, 98, 9, 99, 32]
        \<longrightarrow> normalize_string lower (Some [32, 32, 65, 32, 32, 32, 98, 9, 99, 32])
              = [97, 32, 98, 32, 99]"
    by (simp add: normalize_string_def py_split_def py_isspace_def)
  show ?thesis using a b c
    by (simp add: normalize_string_def concat_spec_words)
qed

theorem normalize_string_contract_witness:
  "ascii_lower [32, 32, 65, 32, 32, 32, 98, 9, 99, 32] = [32, 32, 97, 32, 32, 32, 98, 9, 99, 32]
   \<and> normalize_string ascii_lower (Some [32, 32, 65, 32, 32, 32, 98, 9, 99, 32]) = [97, 32, 98, 32, 99]
   \<and> spec_words (ascii_lower [32, 32, 65, 32, 32, 32, 98, 9, 99, 32]) = [[97], [98], [99]]"
proof -
  have h: "ascii_lower [32, 32, 65, 32, 32, 32, 98, 9, 99, 32] = [32, 32, 97, 32, 32, 32, 98, 9, 99, 32]"
    by (simp add: ascii_lower_def)
  have w: "spec_words [32, 32, 97, 32, 32, 32, 98, 9, 99, 32] = [[97], [98], [99]]"
    by (simp add: split_from_spec_words [symmetric] py_isspace_def)
  from normalize_string_contract [of ascii_lower "[32, 32, 65, 32, 32, 32, 98, 9, 99, 32]"] h
  have "normalize_string ascii_lower (Some [32, 32, 65, 32, 32, 32, 98, 9, 99, 32]) = [97, 32, 98, 32, 99]"
    by blast
  with h w show ?thesis by simp
qed

section \<open>Properties of the Matcher\<close>

lemma startswith_iff: "startswith s p \<longleftrightarrow> (\<exists>post. s = p @ post)"
  by (induction s p rule: startswith.induct) auto

lemma str_in_iff: "str_in needle hay \<longleftrightarrow> (\<exists>pre post. hay = pre @ needle @ post)"
proof (induction hay)
  case Nil
  then show ?case by auto
next
  case (Cons c cs)
  show ?case
  proof
    assume "str_in needle (c # cs)"
    then consider "startswith (c # cs) needle" | "str_in needle cs" by auto
    then show "\<exists>pre post. c # cs = pre @ needle @ post"
    proof cases
      case 1
      then obtain post where "c # cs = needle @ post" using startswith_iff by blast
      then have "c # cs = [] @ needle @ post" by simp
      then show ?thesis by blast
    next
      case 2
      then obtain pre post where "cs = pre @ needle @ post" using Cons.IH by blast
      then have "c # cs = (c # pre) @ needle @ post" by simp
      then show ?thesis by blast
    qed
  next
    assume "\<exists>pre post. c # cs = pre @ needle @ post"
    then obtain pre post where e: "c # cs = pre @ needle @ post" by blast
    show "str_in needle (c # cs)"
    proof (cases pre)
      case Nil
      with e have "startswith (c # cs) needle" using startswith_iff by auto
      then show ?thesis by simp
    next
      case (Cons d ds)
      with e have "cs = ds @ needle @ post" by simp
      then have "str_in needle cs" using Cons.IH by blast
      then show ?thesis by simp
    qed
  qed
qed

lemma keys_match_sym: "keys_match a b = keys_match b a"
  by (auto simp: keys_match_def)

lemma cell_blank_iff: "cell_blank c \<longleftrightarrow> \<not> (\<exists>s. c = Some s \<and> (\<exists>x \<in> set s. \<not> py_isspace x))"
  by (cases c) (auto simp: cell_blank_def strip_is_empty_def list_all_iff)

lemma has_marker_iff:
  "has_marker r \<longleftrightarrow> (\<exists>c \<in> set r. \<exists>s pre post. c = Some s \<and> s = pre @ marker @ post)"
proof -
  have "(case c of None \<Rightarrow> False | Some s \<Rightarrow> str_in marker s)
          = (\<exists>s pre post. c = Some s \<and> s = pre @ marker @ post)" for c :: cell
    by (cases c) (simp_all add: str_in_iff)
  then show ?thesis
    unfolding has_marker_def list_ex_iff by simp
qed

lemma locman_row_promoted:
  "locman_row lower lp acc r =
     (if spec_locman_promoted lower r then acc @ [entry_of lower lp r] else acc)"
  unfolding locman_row_def spec_locman_promoted_def entry_of_def
  by (simp add: has_marker_iff cell_blank_iff Let_def)

lemma locman_rows_filter:
  "locman_rows lower lp rs acc =
     acc @ map (entry_of lower lp) (filter (spec_locman_promoted lower) rs)"
  by (induction rs arbitrary: acc) (simp_all add: locman_row_promoted)

lemma locman_files_concat:
  "locman_files lower fs lps acc =
     acc @ concat (map (\<lambda>lp. map (entry_of lower lp)
                               (filter (spec_locman_promoted lower) (data_rows fs lp))) lps)"
  by (induction lps arbitrary: acc) (simp_all add: locman_rows_filter data_rows_def)

lemma loc_entries_of_concat:
  "loc_entries_of lower fs lps =
     concat (map (\<lambda>lp. map (entry_of lower lp)
                          (filter (spec_locman_promoted lower) (data_rows fs lp))) lps)"
  by (simp add: loc_entries_of_def locman_files_concat)

lemma loc_entries_key:
  "(n, k, lp) \<in> set (loc_entries_of lower fs lps) \<Longrightarrow> k = normalize_string lower n \<and> k \<noteq> []"
  by (auto simp: loc_entries_of_concat entry_of_def spec_locman_promoted_def)

lemma match_row_eq:
  "match_row lower (n, k, lp) (st, f) r =
     (if hits lower k r
      then (st\<lparr>matches := matches st @ [(r ! 1, n, lp)],
               locman_options := options_add (locman_options st) (n, lp) (r ! 1)\<rparr>, True)
      else (st, f))"
  by (auto simp: match_row_def hits_def spec_onec_considered_def Let_def)

lemma match_rows_fields:
  "matches (fst (match_rows lower (n, k, lp) rs (st, f)))
     = matches st @ map (\<lambda>r. (r ! 1, n, lp)) (filter (hits lower k) rs)
   \<and> nomatches (fst (match_rows lower (n, k, lp) rs (st, f))) = nomatches st
   \<and> nomatches_1c (fst (match_rows lower (n, k, lp) rs (st, f))) = nomatches_1c st
   \<and> snd (match_rows lower (n, k, lp) rs (st, f)) = (f \<or> list_ex (hits lower k) rs)"
proof (induction rs arbitrary: st f)
  case Nil
  then show ?case by simp
next
  case (Cons r rs)
  show ?case
  proof (cases "hits lower k r")
    case True
    then show ?thesis
      using Cons.IH [of "st\<lparr>matches := matches st @ [(r ! 1, n, lp)],
               locman_options := options_add (locman_options st) (n, lp) (r ! 1)\<rparr>" True]
      by (simp add: match_row_eq)
  next
    case False
    then show ?thesis using Cons.IH [of st f] by (simp add: match_row_eq)
  qed
qed

lemma match_entry_fields:
  "matches (match_entry lower rs st (n, k, lp))
     = matches st @ map (\<lambda>r. (r ! 1, n, lp)) (filter (hits lower k) rs)
   \<and> nomatches (match_entry lower rs st (n, k, lp))
     = nomatches st @ (if list_ex (hits lower k) rs then [] else [(n, lp)])
   \<and> nomatches_1c (match_entry lower rs st (n, k, lp)) = nomatches_1c st"
proof -
  let ?st1 = "st\<lparr>locman_options := options_init (locman_options st) (n, lp)\<rparr>"
  obtain st2 found where r: "match_rows lower (n, k, lp) rs (?st1, False) = (st2, found)"
    by (cases "match_rows lower (n, k, lp) rs (?st1, False)")
  from match_rows_fields [of lower n k lp rs ?st1 False] r
  have f: "matches st2 = matches st @ map (\<lambda>r. (r ! 1, n, lp)) (filter (hits lower k) rs)"
    "nomatches st2 = nomatches st" "nomatches_1c st2 = nomatches_1c st"
    "found = list_ex (hits lower k) rs"
    by simp_all
  show ?thesis
    using r f by (simp add: match_entry_def)
qed

lemma match_entries_fields:
  "matches (match_entries lower rs es st)
     = matches st @ concat (map (\<lambda>(n, k, lp). map (\<lambda>r. (r ! 1, n, lp)) (filter (hits lower k) rs)) es)
   \<and> nomatches (match_entries lower rs es st)
     = nomatches st @ map (\<lambda>(n, k, lp). (n, lp)) (filter (\<lambda>(n, k, lp). \<not> list_ex (hits lower k) rs) es)
   \<and> nomatches_1c (match_entries lower rs es st) = nomatches_1c st"
proof (induction es arbitrary: st)
  case Nil
  then show ?case by simp
next
  case (Cons e es)
  obtain n k lp where e: "e = (n, k, lp)" by (cases e)
  show ?case
    using Cons.IH [of "match_entry lower rs st (n, k, lp)"]
          match_entry_fields [of lower rs st n k lp]
    by (simp add: e)
qed

lemma found_1c_iff: "found_1c key es = list_ex (\<lambda>(n, k, lp). keys_match k key) es"
  by (induction key es rule: found_1c.induct) auto

lemma unmatched_row_eq:
  "unmatched_row lower es st r =
     (if spec_onec_considered lower r \<and> \<not> found_1c (normalize_string lower (r ! 1)) es
      then st\<lparr>nomatches_1c := nomatches_1c st @ [r ! 1]\<rparr> else st)"
  by (auto simp: unmatched_row_def spec_onec_considered_def Let_def)

lemma unmatched_rows_fields:
  "matches (unmatched_rows lower es rs st) = matches st
   \<and> nomatches (unmatched_rows lower es rs st) = nomatches st
   \<and> nomatches_1c (unmatched_rows lower es rs st)
     = nomatches_1c st @ map (\<lambda>r. r ! 1)
         (filter (\<lambda>r. spec_onec_considered lower r
                       \<and> \<not> found_1c (normalize_string lower (r ! 1)) es) rs)"
proof (induction rs arbitrary: st)
  case Nil
  then show ?case by simp
next
  case (Cons r rs)
  show ?case
    using Cons.IH [of "unmatched_row lower es st r"]
    by (simp add: unmatched_row_eq)
qed

lemma compare_fields:
  "matches (compare_files_1c_locman lower fs f1 lps)
     = concat (map (\<lambda>(n, k, lp). map (\<lambda>r. (r ! 1, n, lp)) (filter (hits lower k) (data_rows fs f1)))
                   (loc_entries_of lower fs lps))
   \<and> nomatches (compare_files_1c_locman lower fs f1 lps)
     = map (\<lambda>(n, k, lp). (n, lp))
         (filter (\<lambda>(n, k, lp). \<not> list_ex (hits lower k) (data_rows fs f1)) (loc_entries_of lower fs lps))
   \<and> nomatches_1c (compare_files_1c_locman lower fs f1 lps)
     = map (\<lambda>r. r ! 1)
         (filter (\<lambda>r. spec_onec_considered lower r
                       \<and> \<not> found_1c (normalize_string lower (r ! 1)) (loc_entries_of lower fs lps))
                 (data_rows fs f1))"
  unfolding compare_files_1c_locman_def Let_def data_rows_def [symmetric]
  using unmatched_rows_fields [of lower "loc_entries_of lower fs lps" "data_rows fs f1"]
        match_entries_fields [of lower "data_rows fs f1" "loc_entries_of lower fs lps"]
  by simp

lemma bolt_entries:
  "loc_entries_of ascii_lower bolt_fs [[108]]
     = [(Some [98, 111, 108, 116], [98, 111, 108, 116], [108]),
        (Some [80, 105, 110], [112, 105, 110], [108])]"
  by (simp add: loc_entries_of_def read_csv_file_simple_def bolt_fs_def row_blank_def
      cell_blank_def strip_is_empty_def py_isspace_def locman_row_def has_marker_def marker_def
      normalize_string_def ascii_lower_def py_split_def Let_def)

lemma bolt_data_rows:
  "data_rows bolt_fs [49, 99]
     = [[Some [120], Some [66, 111, 108, 116, 32, 77, 54]], [Some [122], Some [78, 117, 116]]]"
  by (simp add: data_rows_def read_csv_file_simple_def bolt_fs_def row_blank_def
      cell_blank_def strip_is_empty_def py_isspace_def)

lemma bolt_keys:
  "normalize_string ascii_lower (Some [66, 111, 108, 116, 32, 77, 54]) = [98, 111, 108, 116, 32, 109, 54]"
  "normalize_string ascii_lower (Some [78, 117, 116]) = [110, 117, 116]"
  by (simp_all add: normalize_string_def ascii_lower_def py_split_def py_isspace_def)

lemma bolt_compare:
  "matches (compare_files_1c_locman ascii_lower bolt_fs [49, 99] [[108]])
     = [(Some [66, 111, 108, 116, 32, 77, 54], Some [98, 111, 108, 116], [108])]"
  "nomatches (compare_files_1c_locman ascii_lower bolt_fs [49, 99] [[108]])
     = [(Some [80, 105, 110], [108])]"
  "nomatches_1c (compare_files_1c_locman ascii_lower bolt_fs [49, 99] [[108]])
     = [Some [78, 117, 116]]"
  by (simp_all add: compare_fields bolt_entries bolt_data_rows hits_def spec_onec_considered_def
      bolt_keys keys_match_def)

lemma count_list_map_filter:
  "count_list (map f (filter P xs)) y = length (filter (\<lambda>x. P x \<and> f x = y) xs)"
  by (induction xs) auto

lemma matches_member:
  "m \<in> set (matches (compare_files_1c_locman lower fs f1 lps)) \<longleftrightarrow>
     (\<exists>n k lp r. (n, k, lp) \<in> set (loc_entries_of lower fs lps) \<and> r \<in> set (data_rows fs f1)
        \<and> hits lower k r \<and> m = (r ! 1, n, lp))"
proof -
  define F where "F = (\<lambda>e :: loc_entry. case e of (n, k, lp) \<Rightarrow>
                          map (\<lambda>r. (r ! 1, n, lp)) (filter (hits lower k) (data_rows fs f1)))"
  have one: "m \<in> set (F (n, k, lp)) \<longleftrightarrow>
               (\<exists>r. r \<in> set (data_rows fs f1) \<and> hits lower k r \<and> m = (r ! 1, n, lp))" for n k lp
    unfolding F_def by auto
  have "m \<in> set (matches (compare_files_1c_locman lower fs f1 lps))
          \<longleftrightarrow> (\<exists>e \<in> set (loc_entries_of lower fs lps). m \<in> set (F e))"
    unfolding F_def by (simp add: compare_fields)
  also have "\<dots> \<longleftrightarrow> (\<exists>n k lp. (n, k, lp) \<in> set (loc_entries_of lower fs lps) \<and> m \<in> set (F (n, k, lp)))"
    by (metis prod_cases3)
  finally show ?thesis using one by blast
qed

text \<open>
  C2. A row of a Locman source behind the header row is promoted to an entry if and only
  if it has at least 5 columns, its cell at column index 4 is neither \<open>None\<close> nor made of
  whitespace only, no cell of the row contains the marker text, and the normalized
  display name of column index 1 is non-empty: the loop body adds an entry exactly for
  such a row, and the entry list is, file by file and in order, the entries of exactly
  the promoted rows.
\<close>

theorem locman_entry_promotion:
  "locman_row lower lp acc r =
     (if spec_locman_promoted lower r then acc @ [entry_of lower lp r] else acc)
   \<and> loc_entries_of lower fs locman_csvs =
       concat (map (\<lambda>lp. map (entry_of lower lp)
                            (filter (spec_locman_promoted lower) (data_rows fs lp))) locman_csvs)"
  using locman_row_promoted loc_entries_of_concat by blast

theorem locman_entry_promotion_witness:
  "spec_locman_promoted ascii_lower [Some [120], Some [98, 111, 108, 116], Some [], Some [], Some [121]]
   \<and> \<not> spec_locman_promoted ascii_lower [Some [120], Some [98, 111, 108, 116], Some [], Some [], Some [32]]
   \<and> loc_entries_of ascii_lower bolt_fs [[108]]
       = [(Some [98, 111, 108, 116], [98, 111, 108, 116], [108]),
          (Some [80, 105, 110], [112, 105, 110], [108])]"
proof -
  let ?good = "[Some [120], Some [98, 111, 108, 116], Some [], Some [], Some [121]] :: row"
  let ?bad = "[Some [120], Some [98, 111, 108, 116], Some [], Some [], Some [32]] :: row"
  have g: "locman_row ascii_lower [108] [] ?good \<noteq> []"
    by (simp add: locman_row_def has_marker_def marker_def cell_blank_def strip_is_empty_def
        py_isspace_def normalize_string_def ascii_lower_def py_split_def Let_def)
  have b: "locman_row ascii_lower [108] [] ?bad = []"
    by (simp add: locman_row_def has_marker_def marker_def cell_blank_def strip_is_empty_def
        py_isspace_def)
  have "spec_locman_promoted ascii_lower ?good"
    using g locman_entry_promotion [of ascii_lower "[108]" "[]" ?good]
    by (simp split: if_splits)
  moreover have "\<not> spec_locman_promoted ascii_lower ?bad"
    using b locman_entry_promotion [of ascii_lower "[108]" "[]" ?bad]
    by (simp split: if_splits)
  ultimately show ?thesis using bolt_entries by simp
qed

text \<open>
  C1. For every considered 1C data row (behind the header row, at least 2 columns,
  non-empty key \<open>key1c\<close>) and every Locman entry with key \<open>keyLoc\<close>, the Matcher records
  the pair (1C display name, Locman display name, Locman path) if and only if \<open>keyLoc\<close>
  occurs in \<open>key1c\<close> or \<open>key1c\<close> occurs in \<open>keyLoc\<close> as a contiguous run; the list of
  matches holds one pair per matching (entry, row) pair, entry by entry; and the match
  condition is symmetric under swapping the two keys.
\<close>

theorem matcher_pair_iff_containment:
  "(\<forall>r \<in> set (data_rows fs file1_csv).
      \<forall>(name_loc, key_loc, lp) \<in> set (loc_entries_of lower fs locman_csvs).
        spec_onec_considered lower r \<longrightarrow>
          (((r ! 1, name_loc, lp) \<in> set (matches (compare_files_1c_locman lower fs file1_csv locman_csvs)))
           \<longleftrightarrow> ((\<exists>pre post. normalize_string lower (r ! 1) = pre @ key_loc @ post)
                \<or> (\<exists>pre post. key_loc = pre @ normalize_string lower (r ! 1) @ post))))
   \<and> matches (compare_files_1c_locman lower fs file1_csv locman_csvs)
       = concat (map (\<lambda>(name_loc, key_loc, lp).
                        map (\<lambda>r. (r ! 1, name_loc, lp))
                          (filter (\<lambda>r. spec_onec_considered lower r
                                        \<and> keys_match key_loc (normalize_string lower (r ! 1)))
                                  (data_rows fs file1_csv)))
                     (loc_entries_of lower fs locman_csvs))
   \<and> (\<forall>a b. keys_match a b = keys_match b a)"
proof -
  let ?res = "compare_files_1c_locman lower fs file1_csv locman_csvs"
  let ?es = "loc_entries_of lower fs locman_csvs"
  let ?rs = "data_rows fs file1_csv"
  have iff: "((r ! 1, n, lp) \<in> set (matches ?res))
           \<longleftrightarrow> ((\<exists>pre post. normalize_string lower (r ! 1) = pre @ k @ post)
                \<or> (\<exists>pre post. k = pre @ normalize_string lower (r ! 1) @ post))"
    if r: "r \<in> set ?rs" and e: "(n, k, lp) \<in> set ?es" and c: "spec_onec_considered lower r"
    for r n k lp
  proof -
    have km: "keys_match k (normalize_string lower (r ! 1))
           \<longleftrightarrow> ((\<exists>pre post. normalize_string lower (r ! 1) = pre @ k @ post)
                \<or> (\<exists>pre post. k = pre @ normalize_string lower (r ! 1) @ post))"
      by (simp add: keys_match_def str_in_iff)
    have "((r ! 1, n, lp) \<in> set (matches ?res)) \<longleftrightarrow> keys_match k (normalize_string lower (r ! 1))"
    proof
      assume "(r ! 1, n, lp) \<in> set (matches ?res)"
      then obtain n' k' lp' r' where
        e': "(n', k', lp') \<in> set ?es" and h: "hits lower k' r'"
        and eq: "(r ! 1, n, lp) = (r' ! 1, n', lp')"
        using matches_member by blast
      from e' eq have "k' = normalize_string lower n" using loc_entries_key by fastforce
      moreover from e have "k = normalize_string lower n" using loc_entries_key by fastforce
      ultimately show "keys_match k (normalize_string lower (r ! 1))"
        using h eq by (simp add: hits_def)
    next
      assume "keys_match k (normalize_string lower (r ! 1))"
      then have "hits lower k r" using c by (simp add: hits_def)
      then show "(r ! 1, n, lp) \<in> set (matches ?res)"
        using r e matches_member by blast
    qed
    then show ?thesis using km by simp
  qed
  have lst: "matches ?res
       = concat (map (\<lambda>(name_loc, key_loc, lp).
                        map (\<lambda>r. (r ! 1, name_loc, lp))
                          (filter (\<lambda>r. spec_onec_considered lower r
                                        \<and> keys_match key_loc (normalize_string lower (r ! 1))) ?rs)) ?es)"
    using compare_fields [of lower fs file1_csv locman_csvs] by (simp add: hits_def [abs_def])
  have sym: "\<forall>a b. keys_match a b = keys_match b a"
    using keys_match_sym by blast
  from iff lst sym show ?thesis by blast
qed

theorem matcher_pair_iff_containment_witness:
  "[Some [120], Some [66, 111, 108, 116, 32, 77, 54]] \<in> set (data_rows bolt_fs [49, 99])
   \<and> (Some [98, 111, 108, 116], [98, 111, 108, 116], [108]) \<in> set (loc_entries_of ascii_lower bolt_fs [[108]])
   \<and> spec_onec_considered ascii_lower [Some [120], Some [66, 111, 108, 116, 32, 77, 54]]
   \<and> normalize_string ascii_lower (Some [66, 111, 108, 116, 32, 77, 54]) = [] @ [98, 111, 108, 116] @ [32, 109, 54]
   \<and> (Some [66, 111, 108, 116, 32, 77, 54], Some [98, 111, 108, 116], [108])
       \<in> set (matches (compare_files_1c_locman ascii_lower bolt_fs [49, 99] [[108]]))"
proof -
  let ?r = "[Some [120], Some [66, 111, 108, 116, 32, 77, 54]] :: row"
  have r: "?r \<in> set (data_rows bolt_fs [49, 99])"
    by (simp add: bolt_data_rows)
  have e: "(Some [98, 111, 108, 116], [98, 111, 108, 116], [108]) \<in> set (loc_entries_of ascii_lower bolt_fs [[108]])"
    by (simp add: bolt_entries)
  have c: "spec_onec_considered ascii_lower ?r"
    by (simp add: spec_onec_considered_def bolt_keys)
  have k: "normalize_string ascii_lower (?r ! 1) = [] @ [98, 111, 108, 116] @ [32, 109, 54]"
    by (simp add: bolt_keys)
  then have ex: "\<exists>pre post. normalize_string ascii_lower (?r ! 1) = pre @ [98, 111, 108, 116] @ post"
    by blast
  from matcher_pair_iff_containment [of bolt_fs "[49, 99]" ascii_lower "[[108]]"]
  have "\<forall>r \<in> set (data_rows bolt_fs [49, 99]).
      \<forall>(name_loc, key_loc, lp) \<in> set (loc_entries_of ascii_lower bolt_fs [[108]]).
        spec_onec_considered ascii_lower r \<longrightarrow>
          (((r ! 1, name_loc, lp) \<in> set (matches (compare_files_1c_locman ascii_lower bolt_fs [49, 99] [[108]])))
           \<longleftrightarrow> ((\<exists>pre post. normalize_string ascii_lower (r ! 1) = pre @ key_loc @ post)
                \<or> (\<exists>pre post. key_loc = pre @ normalize_string ascii_lower (r ! 1) @ post)))"
    by blast
  with r e c ex
  have "(?r ! 1, Some [98, 111, 108, 116], [108])
          \<in> set (matches (compare_files_1c_locman ascii_lower bolt_fs [49, 99] [[108]]))"
    by blast
  with r e c k show ?thesis by simp
qed

lemma length_filter_cong:
  "(\<And>x. x \<in> set xs \<Longrightarrow> P x = Q x) \<Longrightarrow> length (filter P xs) = length (filter Q xs)"
  by (induction xs) auto

lemma found_1c_hits:
  "spec_onec_considered lower r \<Longrightarrow>
   found_1c (normalize_string lower (r ! 1)) es \<longleftrightarrow> (\<exists>n k lp. (n, k, lp) \<in> set es \<and> hits lower k r)"
  by (auto simp: found_1c_iff list_ex_iff hits_def)

text \<open>
  C3. The unmatched lists are the complements of the match set, counted per occurrence:
  a display name that is the 1C name of some recorded pair does not occur in the
  unmatched-1C list, and any other name occurs there once per considered 1C row carrying
  it; a (display name, path) carried by some recorded pair does not occur in the
  unmatched-Locman list, and any other occurs there once per Locman entry carrying it.
\<close>

theorem unmatched_lists_complement:
  "(\<forall>n. count_list (nomatches_1c (compare_files_1c_locman lower fs file1_csv locman_csvs)) n
          = (if \<exists>m \<in> set (matches (compare_files_1c_locman lower fs file1_csv locman_csvs)). fst m = n
             then 0
             else count_list (map (\<lambda>r. r ! 1) (filter (spec_onec_considered lower) (data_rows fs file1_csv))) n))
   \<and> (\<forall>n lp. count_list (nomatches (compare_files_1c_locman lower fs file1_csv locman_csvs)) (n, lp)
          = (if \<exists>m \<in> set (matches (compare_files_1c_locman lower fs file1_csv locman_csvs)). snd m = (n, lp)
             then 0
             else count_list (map (\<lambda>(name_loc, key_loc, p). (name_loc, p))
                                  (loc_entries_of lower fs locman_csvs)) (n, lp)))"
proof -
  let ?res = "compare_files_1c_locman lower fs file1_csv locman_csvs"
  let ?es = "loc_entries_of lower fs locman_csvs"
  let ?rs = "data_rows fs file1_csv"
  have one: "count_list (nomatches_1c ?res) n
          = (if \<exists>m \<in> set (matches ?res). fst m = n then 0
             else count_list (map (\<lambda>r. r ! 1) (filter (spec_onec_considered lower) ?rs)) n)" for n
  proof -
    have c: "count_list (nomatches_1c ?res) n
           = length (filter (\<lambda>r. (spec_onec_considered lower r
                                   \<and> \<not> found_1c (normalize_string lower (r ! 1)) ?es) \<and> r ! 1 = n) ?rs)"
      by (simp add: compare_fields count_list_map_filter)
    show ?thesis
    proof (cases "\<exists>m \<in> set (matches ?res). fst m = n")
      case True
      then obtain n' k' lp' r' where e': "(n', k', lp') \<in> set ?es" and r': "r' \<in> set ?rs"
        and h: "hits lower k' r'" and nm: "r' ! 1 = n"
        using matches_member [of _ lower fs file1_csv locman_csvs] by fastforce
      have "\<not> ((spec_onec_considered lower r
                \<and> \<not> found_1c (normalize_string lower (r ! 1)) ?es) \<and> r ! 1 = n)" if "r \<in> set ?rs" for r
      proof
        assume a: "(spec_onec_considered lower r
                \<and> \<not> found_1c (normalize_string lower (r ! 1)) ?es) \<and> r ! 1 = n"
        then have "hits lower k' r" using h nm by (simp add: hits_def)
        then show False using a e' found_1c_hits by blast
      qed
      then have "filter (\<lambda>r. (spec_onec_considered lower r
                  \<and> \<not> found_1c (normalize_string lower (r ! 1)) ?es) \<and> r ! 1 = n) ?rs = []"
        by (simp add: filter_empty_conv)
      then show ?thesis using c True by simp
    next
      case False
      have "((spec_onec_considered lower r
                \<and> \<not> found_1c (normalize_string lower (r ! 1)) ?es) \<and> r ! 1 = n)
            = (spec_onec_considered lower r \<and> r ! 1 = n)" if r: "r \<in> set ?rs" for r
      proof -
        have "\<not> found_1c (normalize_string lower (r ! 1)) ?es"
          if c: "spec_onec_considered lower r" and nm: "r ! 1 = n"
        proof
          assume "found_1c (normalize_string lower (r ! 1)) ?es"
          then obtain n' k' lp' where "(n', k', lp') \<in> set ?es" "hits lower k' r"
            using c found_1c_hits by blast
          then have "(r ! 1, n', lp') \<in> set (matches ?res)"
            using r matches_member by blast
          then show False using False nm by force
        qed
        then show ?thesis by blast
      qed
      then have "length (filter (\<lambda>r. (spec_onec_considered lower r
                  \<and> \<not> found_1c (normalize_string lower (r ! 1)) ?es) \<and> r ! 1 = n) ?rs)
               = length (filter (\<lambda>r. spec_onec_considered lower r \<and> r ! 1 = n) ?rs)"
        by (rule length_filter_cong)
      then show ?thesis using c False by (simp add: count_list_map_filter)
    qed
  qed
  have two: "count_list (nomatches ?res) (n, lp)
          = (if \<exists>m \<in> set (matches ?res). snd m = (n, lp) then 0
             else count_list (map (\<lambda>(name_loc, key_loc, p). (name_loc, p)) ?es) (n, lp))" for n lp
  proof -
    let ?P = "\<lambda>e :: loc_entry. (case e of (n', k, p) \<Rightarrow> \<not> list_ex (hits lower k) ?rs)
                 \<and> (case e of (n', k, p) \<Rightarrow> (n', p)) = (n, lp)"
    let ?Q = "\<lambda>e :: loc_entry. True \<and> (case e of (n', k, p) \<Rightarrow> (n', p)) = (n, lp)"
    have c: "count_list (nomatches ?res) (n, lp) = length (filter ?P ?es)"
      by (simp add: compare_fields count_list_map_filter)
    have d: "count_list (map (\<lambda>(name_loc, key_loc, p). (name_loc, p)) ?es) (n, lp)
               = length (filter ?Q ?es)"
      using count_list_map_filter [of "\<lambda>(name_loc, key_loc, p). (name_loc, p)" "\<lambda>e. True" ?es "(n, lp)"]
      by simp
    show ?thesis
    proof (cases "\<exists>m \<in> set (matches ?res). snd m = (n, lp)")
      case True
      then obtain n' k' lp' r' where e': "(n', k', lp') \<in> set ?es" and r': "r' \<in> set ?rs"
        and h: "hits lower k' r'" and nm: "(n', lp') = (n, lp)"
        using matches_member [of _ lower fs file1_csv locman_csvs] by fastforce
      have k': "k' = normalize_string lower n" using e' nm loc_entries_key by fastforce
      have "\<not> ?P e" if e: "e \<in> set ?es" for e
      proof
        assume a: "?P e"
        obtain n2 k2 p2 where e2: "e = (n2, k2, p2)" by (cases e)
        from a e2 have "n2 = n" "p2 = lp" "\<not> list_ex (hits lower k2) ?rs" by simp_all
        moreover have "k2 = normalize_string lower n2" using e e2 loc_entries_key by fastforce
        ultimately show False using h r' k' by (auto simp: list_ex_iff)
      qed
      then have "filter ?P ?es = []" by (simp add: filter_empty_conv)
      then show ?thesis using c True by simp
    next
      case False
      have "?P e = ?Q e" if e: "e \<in> set ?es" for e
      proof -
        obtain n2 k2 p2 where e2: "e = (n2, k2, p2)" by (cases e)
        have "\<not> list_ex (hits lower k2) ?rs" if nm: "(n2, p2) = (n, lp)"
        proof
          assume "list_ex (hits lower k2) ?rs"
          then obtain r where "r \<in> set ?rs" "hits lower k2 r" by (auto simp: list_ex_iff)
          then have "(r ! 1, n2, p2) \<in> set (matches ?res)"
            using e e2 matches_member by blast
          then show False using False nm by force
        qed
        then show ?thesis using e2 by auto
      qed
      then have "length (filter ?P ?es) = length (filter ?Q ?es)"
        by (rule length_filter_cong)
      then show ?thesis using c d False by simp
    qed
  qed
  from one two show ?thesis by blast
qed

theorem unmatched_lists_complement_witness:
  "count_list (nomatches_1c (compare_files_1c_locman ascii_lower bolt_fs [49, 99] [[108]])) (Some [78, 117, 116]) = 1
   \<and> count_list (nomatches_1c (compare_files_1c_locman ascii_lower bolt_fs [49, 99] [[108]]))
        (Some [66, 111, 108, 116, 32, 77, 54]) = 0
   \<and> count_list (nomatches (compare_files_1c_locman ascii_lower bolt_fs [49, 99] [[108]])) (Some [80, 105, 110], [108]) = 1
   \<and> count_list (nomatches (compare_files_1c_locman ascii_lower bolt_fs [49, 99] [[108]])) (Some [98, 111, 108, 116], [108]) = 0"
proof -
  let ?res = "compare_files_1c_locman ascii_lower bolt_fs [49, 99] [[108]]"
  have m1: "\<not> (\<exists>m \<in> set (matches ?res). fst m = Some [78, 117, 116])"
    by (simp add: bolt_compare)
  have m2: "\<exists>m \<in> set (matches ?res). fst m = Some [66, 111, 108, 116, 32, 77, 54]"
    by (simp add: bolt_compare)
  have m3: "\<not> (\<exists>m \<in> set (matches ?res). snd m = (Some [80, 105, 110], [108]))"
    by (simp add: bolt_compare)
  have m4: "\<exists>m \<in> set (matches ?res). snd m = (Some [98, 111, 108, 116], [108])"
    by (simp add: bolt_compare)
  have rows1: "count_list (map (\<lambda>r. r ! 1) (filter (spec_onec_considered ascii_lower) (data_rows bolt_fs [49, 99])))
                 (Some [78, 117, 116]) = 1"
    by (simp add: bolt_data_rows spec_onec_considered_def bolt_keys)
  have ents: "count_list (map (\<lambda>(name_loc, key_loc, p). (name_loc, p)) (loc_entries_of ascii_lower bolt_fs [[108]]))
                 (Some [80, 105, 110], [108]) = 1"
    by (simp add: bolt_entries)
  note t = unmatched_lists_complement [of ascii_lower bolt_fs "[49, 99]" "[[108]]"]
  from t m1 rows1 have a: "count_list (nomatches_1c ?res) (Some [78, 117, 116]) = 1" by presburger
  from t m2 have b: "count_list (nomatches_1c ?res) (Some [66, 111, 108, 116, 32, 77, 54]) = 0" by presburger
  from t m3 ents have c: "count_list (nomatches ?res) (Some [80, 105, 110], [108]) = 1" by presburger
  from t m4 have d: "count_list (nomatches ?res) (Some [98, 111, 108, 116], [108]) = 0" by presburger
  from a b c d show ?thesis by simp
qed

section \<open>Properties of the Mapping Store\<close>

lemma names_of_rows_of: "names_of k rs = col_name_1c ` set (rows_of k rs)"
  by (simp add: names_of_def rows_of_def)

lemma rows_of_append: "rows_of k (xs @ ys) = rows_of k xs @ rows_of k ys"
  by (simp add: rows_of_def)

lemma sql_insert_cases:
  "(sql_insert t n p c now = Inl IntegrityError \<and> c \<in> names_of (n, p) (rows t))
   \<or> (sql_insert t n p c now =
         Inr \<lparr>rows = rows t @
                  [\<lparr>col_id = seq t + 1, col_name_loc = n, col_loc_path = p, col_name_1c = c,
                    col_created_at = now, col_updated_at = now\<rparr>],
                seq = seq t + 1\<rparr>
       \<and> c \<notin> names_of (n, p) (rows t))"
  by (auto simp: sql_insert_def names_of_def row_ident_def list_ex_iff)

lemma rows_of_update_stamp_other:
  "k \<noteq> (n, p) \<Longrightarrow> rows_of k (rows (sql_update_stamp t now n p c)) = rows_of k (rows t)"
proof -
  have "k \<noteq> (n, p) \<Longrightarrow> rows_of k (map (\<lambda>r. if col_name_loc r = n \<and> col_loc_path r = p \<and> col_name_1c r = c
                         then r\<lparr>col_updated_at := now\<rparr> else r) rs) = rows_of k rs" for rs
    by (induction rs) (auto simp: rows_of_def row_ident_def)
  then show "k \<noteq> (n, p) \<Longrightarrow> ?thesis" by (simp add: sql_update_stamp_def)
qed

lemma names_of_update_stamp:
  "names_of k (rows (sql_update_stamp t now n p c)) = names_of k (rows t)"
proof -
  have "names_of k (map (\<lambda>r. if col_name_loc r = n \<and> col_loc_path r = p \<and> col_name_1c r = c
                         then r\<lparr>col_updated_at := now\<rparr> else r) rs) = names_of k rs" for rs
    by (induction rs) (auto simp: names_of_def row_ident_def)
  then show ?thesis by (simp add: sql_update_stamp_def)
qed

lemma rows_of_delete_other:
  "k \<noteq> (n, p) \<Longrightarrow> rows_of k (rows (fst (sql_delete_identity t n p))) = rows_of k (rows t)"
  by (auto simp: sql_delete_identity_def rows_of_def row_ident_def intro: filter_cong)

lemma rows_of_delete_same:
  "rows_of (n, p) (rows (fst (sql_delete_identity t n p))) = []"
  by (auto simp: sql_delete_identity_def rows_of_def row_ident_def filter_empty_conv)

text \<open>insert loop, no failure injected\<close>

lemma insert_names_ok:
  "fst (insert_names None now n p cs b) = None
   \<and> committed (conn (snd (insert_names None now n p cs b))) = committed (conn b)
   \<and> (\<forall>k. k \<noteq> (n, p) \<longrightarrow>
         rows_of k (rows (working (conn (snd (insert_names None now n p cs b)))))
           = rows_of k (rows (working (conn b))))
   \<and> names_of (n, p) (rows (working (conn (snd (insert_names None now n p cs b)))))
       = names_of (n, p) (rows (working (conn b))) \<union> set cs"
proof (induction cs arbitrary: b)
  case Nil
  then show ?case by simp
next
  case (Cons c cs)
  let ?t = "working (conn b)"
  from sql_insert_cases [of ?t n p c now] show ?case
  proof
    assume a: "sql_insert ?t n p c now = Inl IntegrityError \<and> c \<in> names_of (n, p) (rows ?t)"
    let ?b1 = "b\<lparr>conn := (conn b)\<lparr>working := sql_update_stamp ?t now n p c\<rparr>,
                       executed := executed b + 2\<rparr>"
    have step: "insert_names None now n p (c # cs) b = insert_names None now n p cs ?b1"
      using a by simp
    show ?thesis
      unfolding step using Cons.IH [of ?b1] a
      by (auto simp: rows_of_update_stamp_other names_of_update_stamp)
  next
    let ?t1 = "\<lparr>rows = rows ?t @
                  [\<lparr>col_id = seq ?t + 1, col_name_loc = n, col_loc_path = p, col_name_1c = c,
                    col_created_at = now, col_updated_at = now\<rparr>],
                seq = seq ?t + 1\<rparr>"
    assume a: "sql_insert ?t n p c now = Inr ?t1 \<and> c \<notin> names_of (n, p) (rows ?t)"
    let ?b1 = "b\<lparr>conn := (conn b)\<lparr>working := ?t1\<rparr>, cnt := cnt b + 1, executed := executed b + 1\<rparr>"
    have step: "insert_names None now n p (c # cs) b = insert_names None now n p cs ?b1"
      using a by simp
    have o: "k \<noteq> (n, p) \<Longrightarrow> rows_of k (rows ?t1) = rows_of k (rows ?t)" for k
      by (auto simp: rows_of_def row_ident_def)
    have s: "names_of (n, p) (rows ?t1) = insert c (names_of (n, p) (rows ?t))"
      by (auto simp: names_of_def row_ident_def)
    show ?thesis
      unfolding step using Cons.IH [of ?b1] o s by auto
  qed
qed

lemma insert_names_cnt:
  "distinct cs \<Longrightarrow> set cs \<inter> names_of (n, p) (rows (working (conn b))) = {} \<Longrightarrow>
   cnt (snd (insert_names None now n p cs b)) = cnt b + length cs"
proof (induction cs arbitrary: b)
  case Nil
  then show ?case by simp
next
  case (Cons c cs)
  let ?t = "working (conn b)"
  let ?t1 = "\<lparr>rows = rows ?t @
                  [\<lparr>col_id = seq ?t + 1, col_name_loc = n, col_loc_path = p, col_name_1c = c,
                    col_created_at = now, col_updated_at = now\<rparr>],
                seq = seq ?t + 1\<rparr>"
  let ?b1 = "b\<lparr>conn := (conn b)\<lparr>working := ?t1\<rparr>, cnt := cnt b + 1, executed := executed b + 1\<rparr>"
  from Cons.prems have nin: "c \<notin> names_of (n, p) (rows ?t)" by auto
  then have a: "sql_insert ?t n p c now = Inr ?t1"
    using sql_insert_cases [of ?t n p c now] by blast
  have step: "insert_names None now n p (c # cs) b = insert_names None now n p cs ?b1"
    using a by simp
  have s: "names_of (n, p) (rows ?t1) = insert c (names_of (n, p) (rows ?t))"
    by (auto simp: names_of_def row_ident_def)
  have "set cs \<inter> names_of (n, p) (rows (working (conn ?b1))) = {}"
    using Cons.prems s by auto
  then have "cnt (snd (insert_names None now n p cs ?b1)) = cnt ?b1 + length cs"
    using Cons.IH [of ?b1] Cons.prems by simp
  then show ?case unfolding step by simp
qed

lemma save_items_ok:
  "fst (save_items None now ms b) = None
   \<and> committed (conn (snd (save_items None now ms b))) = committed (conn b)
   \<and> (\<forall>k. k \<notin> fst ` set ms \<longrightarrow>
         rows_of k (rows (working (conn (snd (save_items None now ms b)))))
           = rows_of k (rows (working (conn b))))
   \<and> (distinct (map fst ms) \<longrightarrow>
        (\<forall>k names. (k, names) \<in> set ms \<longrightarrow>
           names_of k (rows (working (conn (snd (save_items None now ms b))))) = set names))"
proof (induction ms arbitrary: b)
  case Nil
  then show ?case by simp
next
  case (Cons item rest)
  obtain n p names where item: "item = ((n, p), names)" by (cases item) auto
  let ?b0 = "b\<lparr>conn := (conn b)\<lparr>working := fst (sql_delete_identity (working (conn b)) n p)\<rparr>,
                   executed := executed b + 1\<rparr>"
  define b1 where "b1 = snd (insert_names None now n p names ?b0)"
  have ins: "insert_names None now n p names ?b0 = (None, b1)"
    using insert_names_ok [of now n p names ?b0] by (simp add: prod_eq_iff b1_def)
  have step: "save_items None now (item # rest) b = save_items None now rest b1"
    unfolding item using ins by simp
  note i = insert_names_ok [of now n p names ?b0, folded b1_def]
  note ih = Cons.IH [of b1]
  have c: "committed (conn b1) = committed (conn b)" using i by simp
  have ihA: "fst (save_items None now rest b1) = None"
    and ihB: "committed (conn (snd (save_items None now rest b1))) = committed (conn b1)"
    and ihC: "\<And>k. k \<notin> fst ` set rest \<Longrightarrow>
         rows_of k (rows (working (conn (snd (save_items None now rest b1)))))
           = rows_of k (rows (working (conn b1)))"
    and ihD: "\<And>k nms. distinct (map fst rest) \<Longrightarrow> (k, nms) \<in> set rest \<Longrightarrow>
           names_of k (rows (working (conn (snd (save_items None now rest b1))))) = set nms"
    using ih by blast+
  have i3: "k \<noteq> (n, p) \<Longrightarrow>
      rows_of k (rows (working (conn b1))) = rows_of k (rows (working (conn ?b0)))" for k
    using i by blast
  have i4: "names_of (n, p) (rows (working (conn b1)))
      = names_of (n, p) (rows (working (conn ?b0))) \<union> set names"
    using i by blast
  have o1: "k \<noteq> (n, p) \<Longrightarrow> rows_of k (rows (working (conn b1))) = rows_of k (rows (working (conn b)))" for k
    using i3 [of k] by (simp add: rows_of_delete_other)
  have s1: "names_of (n, p) (rows (working (conn b1))) = set names"
    using i4 by (simp add: names_of_rows_of rows_of_delete_same)
  have A: "fst (save_items None now (item # rest) b) = None"
    unfolding step using ihA by simp
  have B: "committed (conn (snd (save_items None now (item # rest) b))) = committed (conn b)"
    unfolding step using ihB c by simp
  have C: "\<forall>k. k \<notin> fst ` set (item # rest) \<longrightarrow>
         rows_of k (rows (working (conn (snd (save_items None now (item # rest) b)))))
           = rows_of k (rows (working (conn b)))"
    unfolding step using ihC o1 by (auto simp: item)
  have D: "distinct (map fst (item # rest)) \<longrightarrow>
        (\<forall>k nms. (k, nms) \<in> set (item # rest) \<longrightarrow>
           names_of k (rows (working (conn (snd (save_items None now (item # rest) b))))) = set nms)"
  proof (intro impI allI)
    fix k nms
    assume d: "distinct (map fst (item # rest))" and m: "(k, nms) \<in> set (item # rest)"
    from d have np: "(n, p) \<notin> fst ` set rest" and dr: "distinct (map fst rest)"
      by (simp_all add: item)
    from m consider "k = (n, p)" "nms = names" | "(k, nms) \<in> set rest" by (auto simp: item)
    then show "names_of k (rows (working (conn (snd (save_items None now (item # rest) b))))) = set nms"
    proof cases
      case 1
      have "rows_of (n, p) (rows (working (conn (snd (save_items None now rest b1)))))
              = rows_of (n, p) (rows (working (conn b1)))"
        using ihC np by blast
      then show ?thesis unfolding step using 1 s1 by (simp add: names_of_rows_of)
    next
      case 2
      then show ?thesis unfolding step using ihD dr by blast
    qed
  qed
  from A B C D show ?case by blast
qed

lemma save_items_cnt:
  "distinct (map fst ms) \<Longrightarrow> (\<forall>k names. (k, names) \<in> set ms \<longrightarrow> distinct names) \<Longrightarrow>
   cnt (snd (save_items None now ms b)) = cnt b + sum_list (map (\<lambda>(k, names). length names) ms)"
proof (induction ms arbitrary: b)
  case Nil
  then show ?case by simp
next
  case (Cons item rest)
  obtain n p names where item: "item = ((n, p), names)" by (cases item) auto
  let ?b0 = "b\<lparr>conn := (conn b)\<lparr>working := fst (sql_delete_identity (working (conn b)) n p)\<rparr>,
                   executed := executed b + 1\<rparr>"
  define b1 where "b1 = snd (insert_names None now n p names ?b0)"
  have ins: "insert_names None now n p names ?b0 = (None, b1)"
    using insert_names_ok [of now n p names ?b0] by (simp add: prod_eq_iff b1_def)
  have step: "save_items None now (item # rest) b = save_items None now rest b1"
    unfolding item using ins by simp
  have dn: "distinct names" using Cons.prems(2) by (auto simp: item)
  have "names_of (n, p) (rows (working (conn ?b0))) = {}"
    by (simp add: names_of_rows_of rows_of_delete_same)
  then have c1: "cnt b1 = cnt b + length names"
    using insert_names_cnt [of names n p ?b0 now] dn by (simp add: b1_def)
  have "cnt (snd (save_items None now rest b1))
          = cnt b1 + sum_list (map (\<lambda>(k, names). length names) rest)"
    using Cons.IH [of b1] Cons.prems by simp
  then show ?case unfolding step using c1 by (simp add: item)
qed

lemma load_rows_lookup:
  "load_rows rs m k =
     (if names_of k rs = {} then m k
      else Some ((case m k of None \<Rightarrow> {} | Some s \<Rightarrow> s) \<union> names_of k rs))"
proof (induction rs arbitrary: m)
  case Nil
  then show ?case by (simp add: names_of_def)
next
  case (Cons r rs)
  let ?key = "(col_name_loc r, col_loc_path r)"
  let ?m1 = "if m ?key = None then m(?key \<mapsto> {}) else m"
  let ?m2 = "?m1(?key \<mapsto> insert (col_name_1c r) (case ?m1 ?key of None \<Rightarrow> {} | Some names \<Rightarrow> names))"
  have step: "load_rows (r # rs) m = load_rows rs ?m2" by (simp add: Let_def)
  show ?case
  proof (cases "k = ?key")
    case True
    have m2: "?m2 k = Some (insert (col_name_1c r) (case m k of None \<Rightarrow> {} | Some s \<Rightarrow> s))"
      using True by (auto split: option.splits)
    have n: "names_of k (r # rs) = insert (col_name_1c r) (names_of k rs)"
      using True by (simp add: names_of_def row_ident_def)
    show ?thesis unfolding step Cons.IH [of ?m2] m2 n by auto
  next
    case False
    have m2: "?m2 k = m k" using False by auto
    have n: "names_of k (r # rs) = names_of k rs"
      using False by (auto simp: names_of_def row_ident_def)
    show ?thesis unfolding step Cons.IH [of ?m2] m2 n by simp
  qed
qed

lemma names_of_select: "names_of k (select_by_updated_desc t) = names_of k (rows t)"
  by (simp add: names_of_def select_by_updated_desc_def)

lemma load_mappings_lookup:
  "load_mappings s k = (if names_of k (table_rows s) = {} then None else Some (names_of k (table_rows s)))"
proof (cases s)
  case None
  then show ?thesis by (simp add: load_mappings_def table_rows_def names_of_def)
next
  case (Some t)
  then show ?thesis
    by (simp add: load_mappings_def table_rows_def load_rows_lookup names_of_select)
qed

lemma get_mappings_names_of:
  "get_mappings_for_locman n p s = names_of (n, p) (table_rows s)"
  by (cases s) (simp_all add: get_mappings_for_locman_def names_of_def table_rows_def row_ident_def)

lemma save_mappings_ok:
  "save_mappings None now ms s =
     (Inr (cnt (snd (save_items None now ms (start_batch s)))),
      Some (working (conn (snd (save_items None now ms (start_batch s))))))"
proof -
  obtain e b where r: "save_items None now ms (start_batch s) = (e, b)"
    by (cases "save_items None now ms (start_batch s)")
  then have "e = None" using save_items_ok [of now ms "start_batch s"] by simp
  then show ?thesis using r
    by (simp add: save_mappings_def start_batch_def [symmetric] conn_close_def conn_commit_def)
qed

lemma start_batch_rows: "rows (working (conn (start_batch s))) = table_rows s"
  by (cases s) (simp_all add: start_batch_def get_connection_def init_database_def table_rows_def)

lemma save_mappings_rows_other:
  "k \<notin> fst ` set ms \<Longrightarrow>
   rows_of k (table_rows (snd (save_mappings None now ms s))) = rows_of k (table_rows s)"
proof -
  assume k: "k \<notin> fst ` set ms"
  have "rows_of k (rows (working (conn (snd (save_items None now ms (start_batch s))))))
          = rows_of k (rows (working (conn (start_batch s))))"
    using save_items_ok [of now ms "start_batch s"] k by blast
  then show ?thesis by (simp add: save_mappings_ok table_rows_def start_batch_rows)
qed

lemma save_mappings_names:
  "distinct (map fst ms) \<Longrightarrow> (k, names) \<in> set ms \<Longrightarrow>
   names_of k (table_rows (snd (save_mappings None now ms s))) = set names"
proof -
  assume d: "distinct (map fst ms)" and m: "(k, names) \<in> set ms"
  have "names_of k (rows (working (conn (snd (save_items None now ms (start_batch s)))))) = set names"
    using save_items_ok [of now ms "start_batch s"] d m by blast
  then show ?thesis by (simp add: save_mappings_ok table_rows_def)
qed

lemma mappings_dict_lookup: "mappings_dict ms k = map_option set (map_of ms k)"
  by (induction ms) (auto simp: mappings_dict_def)

lemma nonempty_dict_lookup:
  "nonempty_dict ms k =
     (case map_of (filter (\<lambda>(k, names). names \<noteq> []) ms) k of None \<Rightarrow> None | Some names \<Rightarrow> Some (set names))"
proof -
  have "map_of (map (\<lambda>(k, names). (k, set names)) xs) k = map_option set (map_of xs k)"
    for xs :: mappings
    by (induction xs) auto
  then show ?thesis by (simp add: nonempty_dict_def split: option.splits)
qed

lemma map_of_filter_nonempty:
  "distinct (map fst ms) \<Longrightarrow> (k, names) \<in> set ms \<Longrightarrow>
   map_of (filter (\<lambda>(k, names). names \<noteq> []) ms) k = (if names = [] then None else Some names)"
proof (induction ms)
  case Nil
  then show ?case by simp
next
  case (Cons a ms)
  obtain k' nms where a: "a = (k', nms)" by (cases a)
  show ?case
  proof (cases "k' = k")
    case True
    with Cons.prems a have nm: "nms = names" and nk: "k \<notin> fst ` set ms"
      by (auto simp: rev_image_eqI)
    have "map_of (filter (\<lambda>(k, names). names \<noteq> []) ms) k = None"
      using nk by (auto simp: map_of_eq_None_iff image_iff)
    then show ?thesis using a True nm by simp
  next
    case False
    with Cons.prems a have "(k, names) \<in> set ms" "distinct (map fst ms)" by auto
    then show ?thesis using Cons.IH a False by simp
  qed
qed

lemma save_then_load_lookup:
  assumes d: "distinct (map fst ms)" and fresh: "table_rows s = []"
  shows "load_mappings (snd (save_mappings None now ms s)) k = nonempty_dict ms k"
proof (cases "k \<in> fst ` set ms")
  case True
  then obtain names where m: "(k, names) \<in> set ms" by auto
  have "names_of k (table_rows (snd (save_mappings None now ms s))) = set names"
    using save_mappings_names [OF d m] .
  then have "load_mappings (snd (save_mappings None now ms s)) k
               = (if names = [] then None else Some (set names))"
    by (simp add: load_mappings_lookup)
  moreover have "nonempty_dict ms k = (if names = [] then None else Some (set names))"
    by (simp add: nonempty_dict_lookup map_of_filter_nonempty [OF d m])
  ultimately show ?thesis by simp
next
  case False
  have "rows_of k (table_rows (snd (save_mappings None now ms s))) = rows_of k (table_rows s)"
    using save_mappings_rows_other [OF False] .
  then have "names_of k (table_rows (snd (save_mappings None now ms s))) = {}"
    using fresh by (simp add: names_of_rows_of rows_of_def)
  then have "load_mappings (snd (save_mappings None now ms s)) k = None"
    by (simp add: load_mappings_lookup)
  moreover have "map_of (filter (\<lambda>(k, names). names \<noteq> []) ms) k = None"
    using False by (auto simp: map_of_eq_None_iff image_iff)
  then have "nonempty_dict ms k = None" by (simp add: nonempty_dict_lookup)
  ultimately show ?thesis by simp
qed

lemma filter_nonempty_all:
  "(\<forall>k names. (k, names) \<in> set ms \<longrightarrow> names \<noteq> []) \<Longrightarrow> filter (\<lambda>(k, names). names \<noteq> []) ms = ms"
  by (induction ms) auto

text \<open>
  C4, as amended. After \<open>save_mappings(mappings)\<close> on a store without rows (no
  database file, or an empty table), \<open>load_mappings()\<close> returns \<open>mappings\<close> without the
  identities whose set is empty; when no set of \<open>mappings\<close> is empty it returns a
  dictionary equal to \<open>mappings\<close>, identity by identity as sets. The keys of a dictionary
  are distinct; the order in which it and its sets are iterated is arbitrary.
\<close>

theorem save_then_load_fresh:
  "distinct (map fst ms) \<Longrightarrow> table_rows s = [] \<Longrightarrow>
   load_mappings (snd (save_mappings None now ms s)) = nonempty_dict ms
   \<and> ((\<forall>k names. (k, names) \<in> set ms \<longrightarrow> names \<noteq> [])
        \<longrightarrow> load_mappings (snd (save_mappings None now ms s)) = mappings_dict ms)"
proof -
  assume d: "distinct (map fst ms)" and fresh: "table_rows s = []"
  have a: "load_mappings (snd (save_mappings None now ms s)) = nonempty_dict ms"
    using save_then_load_lookup [OF d fresh] by (rule ext)
  have "nonempty_dict ms = mappings_dict ms"
    if "\<forall>k names. (k, names) \<in> set ms \<longrightarrow> names \<noteq> []"
    using filter_nonempty_all [OF that] by (simp add: nonempty_dict_def mappings_dict_def)
  with a show ?thesis by simp
qed

text \<open>
  C4 as stated fails where an identity is mapped to the empty set: saving
  \<open>{("a", "p"): set()}\<close> into no database and loading gives the empty dictionary, which
  has no key \<open>("a", "p")\<close>.
\<close>

theorem save_then_load_empty_set_counterexample:
  "distinct (map fst ([(([97], [112]), [])] :: mappings))
   \<and> table_rows None = []
   \<and> load_mappings (snd (save_mappings None [] [(([97], [112]), [])] None))
       \<noteq> mappings_dict [(([97], [112]), [])]"
proof -
  have l: "load_mappings (snd (save_mappings None [] [(([97], [112]), [])] None)) ([97], [112]) = None"
    by (simp add: load_mappings_lookup save_mappings_names)
  have r: "mappings_dict [(([97], [112]), [])] ([97], [112]) = Some {}"
    by (simp add: mappings_dict_def)
  from l r have "load_mappings (snd (save_mappings None [] [(([97], [112]), [])] None))
       \<noteq> mappings_dict [(([97], [112]), [])]"
    by (metis option.distinct(1))
  then show ?thesis by (simp add: table_rows_def)
qed

theorem save_then_load_fresh_witness:
  "distinct (map fst ([(([97], [112]), [[120], [121]]), (([98], [112]), [])] :: mappings))
   \<and> table_rows None = []
   \<and> load_mappings (snd (save_mappings None [49] [(([97], [112]), [[120], [121]]), (([98], [112]), [])] None))
        ([97], [112]) = Some {[120], [121]}
   \<and> load_mappings (snd (save_mappings None [49] [(([97], [112]), [[120], [121]]), (([98], [112]), [])] None))
        ([98], [112]) = None
   \<and> load_mappings (snd (save_mappings None [49] [(([97], [112]), [[120]])] None))
        = mappings_dict [(([97], [112]), [[120]])]"
proof -
  let ?ms = "[(([97], [112]), [[120], [121]]), (([98], [112]), [] :: pystr list)] :: mappings"
  have d: "distinct (map fst ?ms)" by simp
  have f: "table_rows None = []" by (simp add: table_rows_def)
  have "load_mappings (snd (save_mappings None [49] ?ms None)) = nonempty_dict ?ms"
    using save_then_load_fresh [OF d f, of "[49]"] by blast
  then have a: "load_mappings (snd (save_mappings None [49] ?ms None)) ([97], [112]) = Some {[120], [121]}"
    and b: "load_mappings (snd (save_mappings None [49] ?ms None)) ([98], [112]) = None"
    by (simp_all add: nonempty_dict_def)
  let ?m1 = "[(([97], [112]), [[120]])] :: mappings"
  have d1: "distinct (map fst ?m1)" by simp
  have ne: "\<forall>k names. (k, names) \<in> set ?m1 \<longrightarrow> names \<noteq> []" by simp
  have c: "load_mappings (snd (save_mappings None [49] ?m1 None)) = mappings_dict ?m1"
    using save_then_load_fresh [OF d1 f, of "[49]"] ne by blast
  from d f a b c show ?thesis by blast
qed

text \<open>
  C5, as amended. When \<open>S1\<close> and then \<open>S2\<close> are saved for one identity in successive
  \<open>save_mappings\<close> calls, the store holds exactly \<open>S1\<close> for it after the first call and
  exactly \<open>S2\<close> after the second, so no name of \<open>S1\<close> outside \<open>S2\<close> remains; and the rows
  of every identity that is not a key of the second call's dictionary are the same rows,
  in the same order, as before it. (Every key of the second call's dictionary holds
  exactly its new set afterwards, as the identity in question does.)
\<close>

theorem resave_replaces_identity:
  "distinct (map fst ms1) \<Longrightarrow> distinct (map fst ms2) \<Longrightarrow>
   (k, S1) \<in> set ms1 \<Longrightarrow> (k, S2) \<in> set ms2 \<Longrightarrow>
   s1 = snd (save_mappings None now1 ms1 s0) \<Longrightarrow> s2 = snd (save_mappings None now2 ms2 s1) \<Longrightarrow>
   get_mappings_for_locman (fst k) (snd k) s1 = set S1
   \<and> get_mappings_for_locman (fst k) (snd k) s2 = set S2
   \<and> col_name_1c ` set (rows_of k (table_rows s2)) = set S2
   \<and> (\<forall>c \<in> set S1 - set S2. c \<notin> get_mappings_for_locman (fst k) (snd k) s2)
   \<and> (\<forall>k'. k' \<notin> fst ` set ms2 \<longrightarrow> rows_of k' (table_rows s2) = rows_of k' (table_rows s1))"
proof -
  assume d1: "distinct (map fst ms1)" and d2: "distinct (map fst ms2)"
    and m1: "(k, S1) \<in> set ms1" and m2: "(k, S2) \<in> set ms2"
    and s1: "s1 = snd (save_mappings None now1 ms1 s0)"
    and s2: "s2 = snd (save_mappings None now2 ms2 s1)"
  have a: "get_mappings_for_locman (fst k) (snd k) s1 = set S1"
    unfolding s1 using save_mappings_names [OF d1 m1] by (simp add: get_mappings_names_of)
  have b: "get_mappings_for_locman (fst k) (snd k) s2 = set S2"
    unfolding s2 using save_mappings_names [OF d2 m2] by (simp add: get_mappings_names_of)
  have c: "col_name_1c ` set (rows_of k (table_rows s2)) = set S2"
    unfolding s2 using save_mappings_names [OF d2 m2] by (simp add: names_of_rows_of)
  have e: "\<forall>k'. k' \<notin> fst ` set ms2 \<longrightarrow> rows_of k' (table_rows s2) = rows_of k' (table_rows s1)"
    unfolding s2 using save_mappings_rows_other by blast
  from a b c e show ?thesis by simp
qed

lemma sum_sizes_nonempty:
  "(\<forall>k names. (k, names) \<in> set ms \<longrightarrow> distinct names) \<Longrightarrow>
   sum_list (map (\<lambda>(k, names). length names) ms)
     = sum_list (map (\<lambda>(k, names). card (set names)) (filter (\<lambda>(k, names). names \<noteq> []) ms))"
proof (induction ms)
  case Nil
  then show ?case by simp
next
  case (Cons a ms)
  obtain k names where a: "a = (k, names)" by (cases a)
  from Cons.prems have "distinct names" by (auto simp: a)
  then have "card (set names) = length names" by (rule distinct_card)
  moreover have "sum_list (map (\<lambda>(k, names). length names) ms)
     = sum_list (map (\<lambda>(k, names). card (set names)) (filter (\<lambda>(k, names). names \<noteq> []) ms))"
    using Cons.IH Cons.prems by auto
  ultimately show ?case by (simp add: a)
qed

text \<open>
  C9. An identity that \<open>save_mappings\<close> is given with the empty set has no row
  afterwards and is absent from what \<open>load_mappings\<close> then returns; \<open>load_mappings\<close>
  never returns an identity with the empty set, whatever the store; and \<open>save_mappings\<close>
  returns the sum of the sizes of the non-empty sets it was given.
\<close>

theorem empty_set_identity_absent:
  "(distinct (map fst ms) \<and> (k, []) \<in> set ms \<longrightarrow>
      rows_of k (table_rows (snd (save_mappings None now ms s))) = []
      \<and> load_mappings (snd (save_mappings None now ms s)) k = None)
   \<and> (\<forall>s' k'. load_mappings s' k' \<noteq> Some {})
   \<and> (distinct (map fst ms) \<and> (\<forall>k names. (k, names) \<in> set ms \<longrightarrow> distinct names) \<longrightarrow>
        fst (save_mappings None now ms s)
          = Inr (sum_list (map (\<lambda>(k, names). card (set names))
                               (filter (\<lambda>(k, names). names \<noteq> []) ms))))"
proof -
  have a: "rows_of k (table_rows (snd (save_mappings None now ms s))) = []
      \<and> load_mappings (snd (save_mappings None now ms s)) k = None"
    if d: "distinct (map fst ms)" and m: "(k, []) \<in> set ms"
  proof -
    have "names_of k (table_rows (snd (save_mappings None now ms s))) = {}"
      using save_mappings_names [OF d m] by simp
    then show ?thesis by (simp add: load_mappings_lookup names_of_rows_of)
  qed
  have b: "\<forall>s' k'. load_mappings s' k' \<noteq> Some {}"
    by (simp add: load_mappings_lookup)
  have c: "fst (save_mappings None now ms s)
          = Inr (sum_list (map (\<lambda>(k, names). card (set names))
                               (filter (\<lambda>(k, names). names \<noteq> []) ms)))"
    if d: "distinct (map fst ms)" and dn: "\<forall>k names. (k, names) \<in> set ms \<longrightarrow> distinct names"
  proof -
    have "cnt (snd (save_items None now ms (start_batch s)))
            = sum_list (map (\<lambda>(k, names). length names) ms)"
      using save_items_cnt [OF d dn, of now "start_batch s"] by (simp add: start_batch_def)
    then show ?thesis using sum_sizes_nonempty [OF dn] by (simp add: save_mappings_ok)
  qed
  from a b c show ?thesis by blast
qed

lemma ex_save1: "save_mappings None [49] ex_ms1 None = (Inr 3, ex_store1)"
  by code_simp

lemma ex_save2: "save_mappings None [50] ex_ms2 ex_store1 = (Inr 2, ex_store2)"
  by code_simp

theorem resave_replaces_identity_witness:
  "distinct (map fst ex_ms1) \<and> distinct (map fst ex_ms2)
   \<and> (([97], [112]), [[120], [121]]) \<in> set ex_ms1 \<and> (([97], [112]), [[121], [119]]) \<in> set ex_ms2
   \<and> ex_store1 = snd (save_mappings None [49] ex_ms1 None)
   \<and> ex_store2 = snd (save_mappings None [50] ex_ms2 ex_store1)
   \<and> get_mappings_for_locman [97] [112] ex_store1 = {[120], [121]}
   \<and> get_mappings_for_locman [97] [112] ex_store2 = {[121], [119]}
   \<and> [120] \<notin> get_mappings_for_locman [97] [112] ex_store2
   \<and> rows_of ([98], [112]) (table_rows ex_store2) = rows_of ([98], [112]) (table_rows ex_store1)"
proof -
  have d1: "distinct (map fst ex_ms1)" and d2: "distinct (map fst ex_ms2)"
    by (simp_all add: ex_ms1_def ex_ms2_def)
  have m1: "(([97], [112]), [[120], [121]]) \<in> set ex_ms1"
    and m2: "(([97], [112]), [[121], [119]]) \<in> set ex_ms2"
    by (simp_all add: ex_ms1_def ex_ms2_def)
  have s1: "ex_store1 = snd (save_mappings None [49] ex_ms1 None)" by (simp add: ex_save1)
  have s2: "ex_store2 = snd (save_mappings None [50] ex_ms2 ex_store1)" by (simp add: ex_save2)
  note t = resave_replaces_identity [OF d1 d2 m1 m2 s1 s2]
  have o: "([98], [112]) \<notin> fst ` set ex_ms2" by (simp add: ex_ms2_def)
  from t have a: "get_mappings_for_locman [97] [112] ex_store1 = {[120], [121]}"
    and b: "get_mappings_for_locman [97] [112] ex_store2 = {[121], [119]}"
    by simp_all
  have c: "[120] \<notin> get_mappings_for_locman [97] [112] ex_store2"
    using b by simp
  have e: "rows_of ([98], [112]) (table_rows ex_store2) = rows_of ([98], [112]) (table_rows ex_store1)"
    using t [THEN conjunct2, THEN conjunct2, THEN conjunct2, THEN conjunct2, rule_format, OF o] .
  show ?thesis
    by (intro conjI) (rule d1 d2 m1 m2 s1 s2 a b c e)+
qed

lemma ex_save3:
  "snd (save_mappings None [50] ex_ms3 ex_store1) =
     Some \<lparr>rows =
            [\<lparr>col_id = 4, col_name_loc = [97], col_loc_path = [112], col_name_1c = [121],
              col_created_at = [50], col_updated_at = [50]\<rparr>,
             \<lparr>col_id = 5, col_name_loc = [97], col_loc_path = [112], col_name_1c = [119],
              col_created_at = [50], col_updated_at = [50]\<rparr>,
             \<lparr>col_id = 6, col_name_loc = [98], col_loc_path = [112], col_name_1c = [122],
              col_created_at = [50], col_updated_at = [50]\<rparr>],
          seq = 6\<rparr>"
  by code_simp

text \<open>
  C5 as stated fails for another identity that the second call saves too, even with the
  set it already has: \<open>save_mappings\<close> deletes and inserts the rows of every key of its
  dictionary. After \<open>ex_ms1\<close>, saving \<open>ex_ms3\<close> gives \<open>("a", "p")\<close> its new set, and
  the row of \<open>("b", "p")\<close>, whose set is \<open>{"z"}\<close> in both calls, is a new row: another
  \<open>id\<close>, another \<open>created_at\<close>.
\<close>

theorem resave_other_identity_counterexample:
  "distinct (map fst ex_ms1) \<and> distinct (map fst ex_ms3)
   \<and> (([97], [112]), [[120], [121]]) \<in> set ex_ms1 \<and> (([97], [112]), [[121], [119]]) \<in> set ex_ms3
   \<and> ex_store1 = snd (save_mappings None [49] ex_ms1 None)
   \<and> ([98], [112]) \<noteq> (([97], [112]) :: ident)
   \<and> rows_of ([98], [112]) (table_rows ex_store1)
       = [\<lparr>col_id = 3, col_name_loc = [98], col_loc_path = [112], col_name_1c = [122],
           col_created_at = [49], col_updated_at = [49]\<rparr>]
   \<and> rows_of ([98], [112]) (table_rows (snd (save_mappings None [50] ex_ms3 ex_store1)))
       = [\<lparr>col_id = 6, col_name_loc = [98], col_loc_path = [112], col_name_1c = [122],
           col_created_at = [50], col_updated_at = [50]\<rparr>]
   \<and> rows_of ([98], [112]) (table_rows (snd (save_mappings None [50] ex_ms3 ex_store1)))
       \<noteq> rows_of ([98], [112]) (table_rows ex_store1)"
proof -
  have d1: "distinct (map fst ex_ms1)" and d3: "distinct (map fst ex_ms3)"
    by (simp_all add: ex_ms1_def ex_ms3_def)
  have m1: "(([97], [112]), [[120], [121]]) \<in> set ex_ms1"
    and m3: "(([97], [112]), [[121], [119]]) \<in> set ex_ms3"
    by (simp_all add: ex_ms1_def ex_ms3_def)
  have s1: "ex_store1 = snd (save_mappings None [49] ex_ms1 None)" by (simp add: ex_save1)
  have ne: "([98], [112]) \<noteq> (([97], [112]) :: ident)" by simp
  have a: "rows_of ([98], [112]) (table_rows ex_store1)
       = [\<lparr>col_id = 3, col_name_loc = [98], col_loc_path = [112], col_name_1c = [122],
           col_created_at = [49], col_updated_at = [49]\<rparr>]"
    by (simp add: ex_store1_def table_rows_def rows_of_def row_ident_def)
  have b: "rows_of ([98], [112]) (table_rows (snd (save_mappings None [50] ex_ms3 ex_store1)))
       = [\<lparr>col_id = 6, col_name_loc = [98], col_loc_path = [112], col_name_1c = [122],
           col_created_at = [50], col_updated_at = [50]\<rparr>]"
    unfolding ex_save3 by (simp add: table_rows_def rows_of_def row_ident_def)
  have c: "rows_of ([98], [112]) (table_rows (snd (save_mappings None [50] ex_ms3 ex_store1)))
       \<noteq> rows_of ([98], [112]) (table_rows ex_store1)"
    unfolding a b by simp
  show ?thesis
    by (intro conjI) (rule d1 d3 m1 m3 s1 ne a b c)+
qed

theorem empty_set_identity_absent_witness:
  "distinct (map fst ([(([97], [112]), []), (([98], [112]), [[122], [119]])] :: mappings))
   \<and> (([97], [112]), []) \<in> set ([(([97], [112]), []), (([98], [112]), [[122], [119]])] :: mappings)
   \<and> load_mappings (snd (save_mappings None [50] [(([97], [112]), []), (([98], [112]), [[122], [119]])] ex_store1))
        ([97], [112]) = None
   \<and> rows_of ([97], [112])
        (table_rows (snd (save_mappings None [50] [(([97], [112]), []), (([98], [112]), [[122], [119]])] ex_store1))) = []
   \<and> fst (save_mappings None [50] [(([97], [112]), []), (([98], [112]), [[122], [119]])] ex_store1) = Inr 2"
proof -
  let ?ms = "[(([97], [112]), []), (([98], [112]), [[122], [119]])] :: mappings"
  have d: "distinct (map fst ?ms)" by simp
  have m: "(([97], [112]), []) \<in> set ?ms" by simp
  have dn: "\<forall>k names. (k, names) \<in> set ?ms \<longrightarrow> distinct names" by auto
  note t = empty_set_identity_absent [of ?ms "([97], [112])" "[50]" ex_store1]
  have ab: "rows_of ([97], [112]) (table_rows (snd (save_mappings None [50] ?ms ex_store1))) = []
      \<and> load_mappings (snd (save_mappings None [50] ?ms ex_store1)) ([97], [112]) = None"
    using t [THEN conjunct1, rule_format, OF conjI [OF d m]] .
  then have a: "rows_of ([97], [112]) (table_rows (snd (save_mappings None [50] ?ms ex_store1))) = []"
    and b: "load_mappings (snd (save_mappings None [50] ?ms ex_store1)) ([97], [112]) = None"
    by (rule conjunct1, rule conjunct2)
  have "fst (save_mappings None [50] ?ms ex_store1)
          = Inr (sum_list (map (\<lambda>(k, names). card (set names))
                               (filter (\<lambda>(k, names). names \<noteq> []) ?ms)))"
    using t [THEN conjunct2, THEN conjunct2, rule_format, OF conjI [OF d dn]] .
  then have c: "fst (save_mappings None [50] ?ms ex_store1) = Inr 2" by simp
  show ?thesis
    by (intro conjI) (rule d m a b c)+
qed

lemma delete_mappings_identity:
  "n \<noteq> [] \<Longrightarrow> p \<noteq> [] \<Longrightarrow>
   table_rows (snd (delete_mappings (Some n) (Some p) s)) = filter (\<lambda>r. row_ident r \<noteq> (n, p)) (table_rows s)
   \<and> fst (delete_mappings (Some n) (Some p) s) = length (filter (\<lambda>r. row_ident r = (n, p)) (table_rows s))"
  by (cases s)
     (simp_all add: delete_mappings_def table_rows_def truthy_def get_connection_def conn_close_def
        conn_commit_def sql_delete_identity_def row_ident_def)

lemma delete_mappings_all:
  "\<not> truthy name_loc \<or> \<not> truthy loc_path \<Longrightarrow>
   table_rows (snd (delete_mappings name_loc loc_path s)) = []
   \<and> fst (delete_mappings name_loc loc_path s) = length (table_rows s)"
  by (cases s)
     (auto simp: delete_mappings_def table_rows_def get_connection_def conn_close_def
        conn_commit_def sql_delete_all_def)

lemma truthy_iff: "truthy a \<longleftrightarrow> a \<noteq> None \<and> a \<noteq> Some []"
  by (cases a) (simp_all add: truthy_def)

lemma count_table_rows: "get_all_mappings_count s = length (table_rows s)"
  by (cases s) (simp_all add: get_all_mappings_count_def table_rows_def)

lemma rows_of_filter_other:
  "k \<noteq> k' \<Longrightarrow> rows_of k (filter (\<lambda>r. row_ident r \<noteq> k') rs) = rows_of k rs"
  by (induction rs) (auto simp: rows_of_def)

lemma rows_of_filter_same: "rows_of k (filter (\<lambda>r. row_ident r \<noteq> k) rs) = []"
  by (induction rs) (auto simp: rows_of_def)

text \<open>
  C7, as amended. \<open>delete_mappings\<close> called with a name and a path that are both
  non-empty strings deletes exactly the rows of that identity, leaves the rows of every
  other identity as they are, and returns the number of rows deleted; called with an
  argument omitted (\<open>None\<close>) it deletes all rows and returns their number, and
  \<open>get_all_mappings_count\<close> is then 0.
\<close>

theorem delete_mappings_identity_or_all:
  "(n \<noteq> [] \<and> p \<noteq> [] \<longrightarrow>
      table_rows (snd (delete_mappings (Some n) (Some p) s))
        = filter (\<lambda>r. row_ident r \<noteq> (n, p)) (table_rows s)
      \<and> rows_of (n, p) (table_rows (snd (delete_mappings (Some n) (Some p) s))) = []
      \<and> (\<forall>k. k \<noteq> (n, p) \<longrightarrow>
            rows_of k (table_rows (snd (delete_mappings (Some n) (Some p) s))) = rows_of k (table_rows s))
      \<and> fst (delete_mappings (Some n) (Some p) s)
          = length (filter (\<lambda>r. row_ident r = (n, p)) (table_rows s)))
   \<and> (name_loc = None \<or> loc_path = None \<longrightarrow>
        table_rows (snd (delete_mappings name_loc loc_path s)) = []
        \<and> fst (delete_mappings name_loc loc_path s) = length (table_rows s)
        \<and> get_all_mappings_count (snd (delete_mappings name_loc loc_path s)) = 0)"
proof -
  have a: "table_rows (snd (delete_mappings (Some n) (Some p) s))
        = filter (\<lambda>r. row_ident r \<noteq> (n, p)) (table_rows s)
      \<and> rows_of (n, p) (table_rows (snd (delete_mappings (Some n) (Some p) s))) = []
      \<and> (\<forall>k. k \<noteq> (n, p) \<longrightarrow>
            rows_of k (table_rows (snd (delete_mappings (Some n) (Some p) s))) = rows_of k (table_rows s))
      \<and> fst (delete_mappings (Some n) (Some p) s)
          = length (filter (\<lambda>r. row_ident r = (n, p)) (table_rows s))"
    if "n \<noteq> []" "p \<noteq> []"
    using delete_mappings_identity [OF that, of s]
    by (simp add: rows_of_filter_other rows_of_filter_same)
  have b: "table_rows (snd (delete_mappings name_loc loc_path s)) = []
        \<and> fst (delete_mappings name_loc loc_path s) = length (table_rows s)
        \<and> get_all_mappings_count (snd (delete_mappings name_loc loc_path s)) = 0"
    if "name_loc = None \<or> loc_path = None"
  proof -
    from that have "\<not> truthy name_loc \<or> \<not> truthy loc_path" by (auto simp: truthy_def)
    from delete_mappings_all [OF this, of s] show ?thesis by (simp add: count_table_rows)
  qed
  from a b show ?thesis by blast
qed

text \<open>
  C7 as stated fails where an argument is given as the empty string. Saving
  \<open>{("", "p"): {"x"}, ("a", "q"): {"y"}}\<close> into no database gives \<open>ex_store3\<close>; on it
  \<open>delete_mappings("", "p")\<close> deletes both rows, while the rows other than those of
  \<open>("", "p")\<close> are the one row of \<open>("a", "q")\<close>.
\<close>

theorem delete_mappings_given_empty_counterexample:
  "snd (save_mappings None [49] [(([], [112]), [[120]]), (([97], [113]), [[121]])] None) = ex_store3
   \<and> table_rows (snd (delete_mappings (Some []) (Some [112]) ex_store3)) = []
   \<and> filter (\<lambda>r. row_ident r \<noteq> ([], [112])) (table_rows ex_store3)
       = [\<lparr>col_id = 2, col_name_loc = [97], col_loc_path = [113], col_name_1c = [121],
           col_created_at = [49], col_updated_at = [49]\<rparr>]
   \<and> table_rows (snd (delete_mappings (Some []) (Some [112]) ex_store3))
       \<noteq> filter (\<lambda>r. row_ident r \<noteq> ([], [112])) (table_rows ex_store3)"
proof -
  have r: "snd (save_mappings None [49] [(([], [112]), [[120]]), (([97], [113]), [[121]])] None) = ex_store3"
    by code_simp
  have a: "table_rows (snd (delete_mappings (Some []) (Some [112]) ex_store3)) = []"
    by (simp add: delete_mappings_def ex_store3_def table_rows_def truthy_def get_connection_def
        conn_close_def conn_commit_def sql_delete_all_def)
  have b: "filter (\<lambda>r. row_ident r \<noteq> ([], [112])) (table_rows ex_store3)
       = [\<lparr>col_id = 2, col_name_loc = [97], col_loc_path = [113], col_name_1c = [121],
           col_created_at = [49], col_updated_at = [49]\<rparr>]"
    by (simp add: ex_store3_def table_rows_def row_ident_def)
  have c: "table_rows (snd (delete_mappings (Some []) (Some [112]) ex_store3))
       \<noteq> filter (\<lambda>r. row_ident r \<noteq> ([], [112])) (table_rows ex_store3)"
    unfolding a b by simp
  show ?thesis
    by (intro conjI) (rule r a b c)+
qed

theorem delete_mappings_identity_or_all_witness:
  "rows_of ([97], [112]) (table_rows (snd (delete_mappings (Some [97]) (Some [112]) ex_store1))) = []
   \<and> rows_of ([98], [112]) (table_rows (snd (delete_mappings (Some [97]) (Some [112]) ex_store1)))
       = rows_of ([98], [112]) (table_rows ex_store1)
   \<and> fst (delete_mappings (Some [97]) (Some [112]) ex_store1) = 2
   \<and> table_rows (snd (delete_mappings None None ex_store1)) = []
   \<and> fst (delete_mappings None None ex_store1) = 3
   \<and> get_all_mappings_count (snd (delete_mappings None None ex_store1)) = 0"
proof -
  note t = delete_mappings_identity_or_all [of "[97]" "[112]" ex_store1 None None]
  have ne: "[97] \<noteq> ([] :: pystr) \<and> [112] \<noteq> ([] :: pystr)" by simp
  note t1 = t [THEN conjunct1, rule_format, OF ne]
  have om: "(None :: pystr option) = None \<or> (None :: pystr option) = None" by simp
  note t2 = t [THEN conjunct2, rule_format, OF om]
  have a: "rows_of ([97], [112]) (table_rows (snd (delete_mappings (Some [97]) (Some [112]) ex_store1))) = []"
    using t1 by (rule conjunct2 [THEN conjunct1])
  have ok: "([98], [112]) \<noteq> (([97], [112]) :: ident)" by simp
  have b: "rows_of ([98], [112]) (table_rows (snd (delete_mappings (Some [97]) (Some [112]) ex_store1)))
       = rows_of ([98], [112]) (table_rows ex_store1)"
    using t1 [THEN conjunct2, THEN conjunct2, THEN conjunct1, rule_format, OF ok] .
  have "fst (delete_mappings (Some [97]) (Some [112]) ex_store1)
          = length (filter (\<lambda>r. row_ident r = ([97], [112])) (table_rows ex_store1))"
    using t1 by (rule conjunct2 [THEN conjunct2, THEN conjunct2])
  then have c: "fst (delete_mappings (Some [97]) (Some [112]) ex_store1) = 2"
    by (simp add: ex_store1_def table_rows_def row_ident_def)
  have d: "table_rows (snd (delete_mappings None None ex_store1)) = []"
    using t2 by (rule conjunct1)
  have "fst (delete_mappings None None ex_store1) = length (table_rows ex_store1)"
    using t2 by (rule conjunct2 [THEN conjunct1])
  then have e: "fst (delete_mappings None None ex_store1) = 3"
    by (simp add: ex_store1_def table_rows_def)
  have f: "get_all_mappings_count (snd (delete_mappings None None ex_store1)) = 0"
    using t2 by (rule conjunct2 [THEN conjunct2])
  show ?thesis
    by (intro conjI) (rule a b c d e f)+
qed

text \<open>
  C10. \<open>delete_mappings\<close> treats the empty string as it treats \<open>None\<close>: when
  \<open>name_loc\<close> or \<open>loc_path\<close> is \<open>None\<close> or empty, every row is deleted and their number
  returned; only when both are non-empty strings is the deletion that of the one
  identity.
\<close>

theorem delete_mappings_empty_string_as_omitted:
  "(name_loc = None \<or> name_loc = Some [] \<or> loc_path = None \<or> loc_path = Some [] \<longrightarrow>
      table_rows (snd (delete_mappings name_loc loc_path s)) = []
      \<and> fst (delete_mappings name_loc loc_path s) = length (table_rows s))
   \<and> (name_loc = Some n \<and> n \<noteq> [] \<and> loc_path = Some p \<and> p \<noteq> [] \<longrightarrow>
        table_rows (snd (delete_mappings name_loc loc_path s))
          = filter (\<lambda>r. row_ident r \<noteq> (n, p)) (table_rows s)
        \<and> fst (delete_mappings name_loc loc_path s)
            = length (filter (\<lambda>r. row_ident r = (n, p)) (table_rows s)))"
proof -
  have a: "table_rows (snd (delete_mappings name_loc loc_path s)) = []
      \<and> fst (delete_mappings name_loc loc_path s) = length (table_rows s)"
    if "name_loc = None \<or> name_loc = Some [] \<or> loc_path = None \<or> loc_path = Some []"
  proof -
    from that have "\<not> truthy name_loc \<or> \<not> truthy loc_path" by (auto simp: truthy_iff)
    then show ?thesis by (rule delete_mappings_all)
  qed
  have b: "table_rows (snd (delete_mappings name_loc loc_path s))
          = filter (\<lambda>r. row_ident r \<noteq> (n, p)) (table_rows s)
        \<and> fst (delete_mappings name_loc loc_path s)
            = length (filter (\<lambda>r. row_ident r = (n, p)) (table_rows s))"
    if "name_loc = Some n \<and> n \<noteq> [] \<and> loc_path = Some p \<and> p \<noteq> []"
    using that delete_mappings_identity [of n p s] by simp
  from a b show ?thesis by blast
qed

theorem delete_mappings_empty_string_as_omitted_witness:
  "table_rows (snd (delete_mappings (Some []) (Some [112]) ex_store3)) = []
   \<and> fst (delete_mappings (Some []) (Some [112]) ex_store3) = 2
   \<and> table_rows (snd (delete_mappings (Some [97]) None ex_store3)) = []
   \<and> table_rows (snd (delete_mappings (Some [97]) (Some [113]) ex_store3))
       = [\<lparr>col_id = 1, col_name_loc = [], col_loc_path = [112], col_name_1c = [120],
           col_created_at = [49], col_updated_at = [49]\<rparr>]
   \<and> fst (delete_mappings (Some [97]) (Some [113]) ex_store3) = 1"
proof -
  have h1: "Some [] = (None :: pystr option) \<or> Some [] = Some ([] :: pystr)
            \<or> Some [112] = (None :: pystr option) \<or> Some [112] = Some ([] :: pystr)" by simp
  note t1 = delete_mappings_empty_string_as_omitted
              [of "Some []" "Some [112]" ex_store3, THEN conjunct1, rule_format, OF h1]
  have a: "table_rows (snd (delete_mappings (Some []) (Some [112]) ex_store3)) = []"
    using t1 by (rule conjunct1)
  have "fst (delete_mappings (Some []) (Some [112]) ex_store3) = length (table_rows ex_store3)"
    using t1 by (rule conjunct2)
  then have b: "fst (delete_mappings (Some []) (Some [112]) ex_store3) = 2"
    by (simp add: ex_store3_def table_rows_def)
  have h2: "Some [97] = (None :: pystr option) \<or> Some [97] = Some ([] :: pystr)
            \<or> (None :: pystr option) = None \<or> (None :: pystr option) = Some []" by simp
  have c: "table_rows (snd (delete_mappings (Some [97]) None ex_store3)) = []"
    using delete_mappings_empty_string_as_omitted
              [of "Some [97]" None ex_store3, THEN conjunct1, rule_format, OF h2]
    by (rule conjunct1)
  have h3: "Some [97] = Some [97] \<and> [97] \<noteq> ([] :: pystr) \<and> Some [113] = Some [113] \<and> [113] \<noteq> ([] :: pystr)"
    by simp
  note t3 = delete_mappings_empty_string_as_omitted
              [of "Some [97]" "Some [113]" ex_store3 "[97]" "[113]", THEN conjunct2, rule_format, OF h3]
  have "table_rows (snd (delete_mappings (Some [97]) (Some [113]) ex_store3))
          = filter (\<lambda>r. row_ident r \<noteq> ([97], [113])) (table_rows ex_store3)"
    using t3 by (rule conjunct1)
  then have d: "table_rows (snd (delete_mappings (Some [97]) (Some [113]) ex_store3))
       = [\<lparr>col_id = 1, col_name_loc = [], col_loc_path = [112], col_name_1c = [120],
           col_created_at = [49], col_updated_at = [49]\<rparr>]"
    by (simp add: ex_store3_def table_rows_def row_ident_def)
  have "fst (delete_mappings (Some [97]) (Some [113]) ex_store3)
            = length (filter (\<lambda>r. row_ident r = ([97], [113])) (table_rows ex_store3))"
    using t3 by (rule conjunct2)
  then have e: "fst (delete_mappings (Some [97]) (Some [113]) ex_store3) = 1"
    by (simp add: ex_store3_def table_rows_def row_ident_def)
  show ?thesis
    by (intro conjI) (rule a b c d e)+
qed

lemma insert_names_committed:
  "committed (conn (snd (insert_names f now n p cs b))) = committed (conn b)"
proof (induction cs arbitrary: b)
  case Nil
  then show ?case by simp
next
  case (Cons c cs)
  from sql_insert_cases [of "working (conn b)" n p c now] show ?case
  proof
    assume "sql_insert (working (conn b)) n p c now = Inl IntegrityError
              \<and> c \<in> names_of (n, p) (rows (working (conn b)))"
    then show ?thesis using Cons.IH by simp
  next
    assume "sql_insert (working (conn b)) n p c now =
         Inr \<lparr>rows = rows (working (conn b)) @
                  [\<lparr>col_id = seq (working (conn b)) + 1, col_name_loc = n, col_loc_path = p,
                    col_name_1c = c, col_created_at = now, col_updated_at = now\<rparr>],
                seq = seq (working (conn b)) + 1\<rparr>
       \<and> c \<notin> names_of (n, p) (rows (working (conn b)))"
    then show ?thesis using Cons.IH by simp
  qed
qed

lemma save_items_committed:
  "committed (conn (snd (save_items f now ms b))) = committed (conn b)"
proof (induction ms arbitrary: b)
  case Nil
  then show ?case by simp
next
  case (Cons item rest)
  obtain n p names where item: "item = ((n, p), names)" by (cases item) auto
  let ?b0 = "b\<lparr>conn := (conn b)\<lparr>working := fst (sql_delete_identity (working (conn b)) n p)\<rparr>,
                   executed := executed b + 1\<rparr>"
  obtain e b1 where r: "insert_names f now n p names ?b0 = (e, b1)"
    by (cases "insert_names f now n p names ?b0")
  have c1: "committed (conn b1) = committed (conn b)"
    using insert_names_committed [of f now n p names ?b0] r by simp
  show ?case
  proof (cases "f = Some (executed b)")
    case True
    then show ?thesis by (simp add: item)
  next
    case False
    show ?thesis
    proof (cases e)
      case None
      then have "save_items f now (item # rest) b = save_items f now rest b1"
        using False r by (simp add: item)
      then show ?thesis using Cons.IH [of b1] c1 by simp
    next
      case (Some err)
      then have "save_items f now (item # rest) b = (Some err, b1)"
        using False r by (simp add: item)
      then show ?thesis using c1 by simp
    qed
  qed
qed

lemma save_mappings_failed_store:
  "fst (save_mappings f now ms s) = Inl e \<Longrightarrow> snd (save_mappings f now ms s) = Some (init_database s)"
proof -
  assume a: "fst (save_mappings f now ms s) = Inl e"
  obtain r b where sb: "save_items f now ms (start_batch s) = (r, b)"
    by (cases "save_items f now ms (start_batch s)")
  have c: "committed (conn b) = init_database s"
    using save_items_committed [of f now ms "start_batch s"] sb
    by (simp add: start_batch_def get_connection_def)
  show ?thesis
  proof (cases r)
    case None
    with a sb have "f = Some (executed b)"
      by (simp add: save_mappings_def start_batch_def [symmetric] split: if_splits)
    then show ?thesis using None sb c
      by (simp add: save_mappings_def start_batch_def [symmetric] conn_close_def conn_rollback_def)
  next
    case (Some err)
    then show ?thesis using sb c
      by (simp add: save_mappings_def start_batch_def [symmetric] conn_close_def conn_rollback_def)
  qed
qed

lemma insert_names_executed_mono:
  "executed b \<le> executed (snd (insert_names None now n p cs b))"
proof (induction cs arbitrary: b)
  case Nil
  then show ?case by simp
next
  case (Cons c cs)
  from sql_insert_cases [of "working (conn b)" n p c now] show ?case
  proof
    assume a: "sql_insert (working (conn b)) n p c now = Inl IntegrityError
              \<and> c \<in> names_of (n, p) (rows (working (conn b)))"
    show ?thesis
      using Cons.IH [of "b\<lparr>conn := (conn b)\<lparr>working := sql_update_stamp (working (conn b)) now n p c\<rparr>,
                       executed := executed b + 2\<rparr>"] a
      by simp
  next
    let ?t1 = "\<lparr>rows = rows (working (conn b)) @
                  [\<lparr>col_id = seq (working (conn b)) + 1, col_name_loc = n, col_loc_path = p,
                    col_name_1c = c, col_created_at = now, col_updated_at = now\<rparr>],
                seq = seq (working (conn b)) + 1\<rparr>"
    assume a: "sql_insert (working (conn b)) n p c now = Inr ?t1
       \<and> c \<notin> names_of (n, p) (rows (working (conn b)))"
    show ?thesis
      using Cons.IH [of "b\<lparr>conn := (conn b)\<lparr>working := ?t1\<rparr>, cnt := cnt b + 1,
                            executed := executed b + 1\<rparr>"] a
      by simp
  qed
qed

lemma insert_names_fault:
  "executed b \<le> k \<Longrightarrow>
   (k < executed (snd (insert_names None now n p cs b))
      \<longrightarrow> fst (insert_names (Some k) now n p cs b) = Some OperationalError)
   \<and> (executed (snd (insert_names None now n p cs b)) \<le> k
      \<longrightarrow> insert_names (Some k) now n p cs b = insert_names None now n p cs b)"
proof (induction cs arbitrary: b)
  case Nil
  then show ?case by simp
next
  case (Cons c cs)
  show ?case
  proof (cases "k = executed b")
    case True
    have "executed b < executed (snd (insert_names None now n p (c # cs) b))"
    proof -
      from sql_insert_cases [of "working (conn b)" n p c now] show ?thesis
      proof
        assume a: "sql_insert (working (conn b)) n p c now = Inl IntegrityError
              \<and> c \<in> names_of (n, p) (rows (working (conn b)))"
        show ?thesis
          using insert_names_executed_mono
            [of "b\<lparr>conn := (conn b)\<lparr>working := sql_update_stamp (working (conn b)) now n p c\<rparr>,
                       executed := executed b + 2\<rparr>" now n p cs] a
          by simp
      next
        let ?t1 = "\<lparr>rows = rows (working (conn b)) @
                  [\<lparr>col_id = seq (working (conn b)) + 1, col_name_loc = n, col_loc_path = p,
                    col_name_1c = c, col_created_at = now, col_updated_at = now\<rparr>],
                seq = seq (working (conn b)) + 1\<rparr>"
        assume a: "sql_insert (working (conn b)) n p c now = Inr ?t1
           \<and> c \<notin> names_of (n, p) (rows (working (conn b)))"
        show ?thesis
          using insert_names_executed_mono
            [of "b\<lparr>conn := (conn b)\<lparr>working := ?t1\<rparr>, cnt := cnt b + 1,
                            executed := executed b + 1\<rparr>" now n p cs] a
          by simp
      qed
    qed
    then show ?thesis using True by simp
  next
    case False
    with Cons.prems have lt: "executed b < k" by simp
    from sql_insert_cases [of "working (conn b)" n p c now] show ?thesis
    proof
      assume a: "sql_insert (working (conn b)) n p c now = Inl IntegrityError
              \<and> c \<in> names_of (n, p) (rows (working (conn b)))"
      let ?b1 = "b\<lparr>conn := (conn b)\<lparr>working := sql_update_stamp (working (conn b)) now n p c\<rparr>,
                       executed := executed b + 2\<rparr>"
      have n0: "insert_names None now n p (c # cs) b = insert_names None now n p cs ?b1"
        using a by simp
      show ?thesis
      proof (cases "k = executed b + 1")
        case True
        have "executed ?b1 \<le> executed (snd (insert_names None now n p cs ?b1))"
          by (rule insert_names_executed_mono)
        then have "k < executed (snd (insert_names None now n p (c # cs) b))"
          unfolding n0 using True by simp
        moreover have "fst (insert_names (Some k) now n p (c # cs) b) = Some OperationalError"
          using a True by simp
        ultimately show ?thesis by simp
      next
        case False
        with lt have le: "executed ?b1 \<le> k" by simp
        have k0: "insert_names (Some k) now n p (c # cs) b = insert_names (Some k) now n p cs ?b1"
          using a lt False by simp
        show ?thesis unfolding n0 k0 using Cons.IH [OF le] .
      qed
    next
      let ?t1 = "\<lparr>rows = rows (working (conn b)) @
                  [\<lparr>col_id = seq (working (conn b)) + 1, col_name_loc = n, col_loc_path = p,
                    col_name_1c = c, col_created_at = now, col_updated_at = now\<rparr>],
                seq = seq (working (conn b)) + 1\<rparr>"
      assume a: "sql_insert (working (conn b)) n p c now = Inr ?t1
           \<and> c \<notin> names_of (n, p) (rows (working (conn b)))"
      let ?b1 = "b\<lparr>conn := (conn b)\<lparr>working := ?t1\<rparr>, cnt := cnt b + 1,
                            executed := executed b + 1\<rparr>"
      have n0: "insert_names None now n p (c # cs) b = insert_names None now n p cs ?b1"
        using a by simp
      have k0: "insert_names (Some k) now n p (c # cs) b = insert_names (Some k) now n p cs ?b1"
        using a lt by simp
      from lt have le: "executed ?b1 \<le> k" by simp
      show ?thesis unfolding n0 k0 using Cons.IH [OF le] .
    qed
  qed
qed

lemma save_items_executed_mono:
  "executed b \<le> executed (snd (save_items None now ms b))"
proof (induction ms arbitrary: b)
  case Nil
  then show ?case by simp
next
  case (Cons item rest)
  obtain n p names where item: "item = ((n, p), names)" by (cases item) auto
  let ?b0 = "b\<lparr>conn := (conn b)\<lparr>working := fst (sql_delete_identity (working (conn b)) n p)\<rparr>,
                   executed := executed b + 1\<rparr>"
  define b1 where "b1 = snd (insert_names None now n p names ?b0)"
  have ins: "insert_names None now n p names ?b0 = (None, b1)"
    using insert_names_ok [of now n p names ?b0] by (simp add: prod_eq_iff b1_def)
  have step: "save_items None now (item # rest) b = save_items None now rest b1"
    unfolding item using ins by simp
  have "executed ?b0 \<le> executed b1"
    unfolding b1_def by (rule insert_names_executed_mono)
  moreover have "executed b1 \<le> executed (snd (save_items None now rest b1))"
    by (rule Cons.IH)
  ultimately show ?case unfolding step by simp
qed

lemma save_items_fault:
  "executed b \<le> k \<Longrightarrow>
   (k < executed (snd (save_items None now ms b))
      \<longrightarrow> fst (save_items (Some k) now ms b) = Some OperationalError)
   \<and> (executed (snd (save_items None now ms b)) \<le> k
      \<longrightarrow> save_items (Some k) now ms b = save_items None now ms b)"
proof (induction ms arbitrary: b)
  case Nil
  then show ?case by simp
next
  case (Cons item rest)
  obtain n p names where item: "item = ((n, p), names)" by (cases item) auto
  let ?b0 = "b\<lparr>conn := (conn b)\<lparr>working := fst (sql_delete_identity (working (conn b)) n p)\<rparr>,
                   executed := executed b + 1\<rparr>"
  define b1 where "b1 = snd (insert_names None now n p names ?b0)"
  have ins: "insert_names None now n p names ?b0 = (None, b1)"
    using insert_names_ok [of now n p names ?b0] by (simp add: prod_eq_iff b1_def)
  have step: "save_items None now (item # rest) b = save_items None now rest b1"
    unfolding item using ins by simp
  have m0: "executed ?b0 \<le> executed b1"
    unfolding b1_def by (rule insert_names_executed_mono)
  have m1: "executed b1 \<le> executed (snd (save_items None now rest b1))"
    by (rule save_items_executed_mono)
  show ?case
  proof (cases "k = executed b")
    case True
    have "fst (save_items (Some k) now (item # rest) b) = Some OperationalError"
      using True by (simp add: item)
    moreover have "k < executed (snd (save_items None now (item # rest) b))"
      unfolding step using m0 m1 True by simp
    ultimately show ?thesis by simp
  next
    case False
    with Cons.prems have lt: "executed b < k" by simp
    then have le0: "executed ?b0 \<le> k" by simp
    note f = insert_names_fault [OF le0, of now n p names, folded b1_def]
    show ?thesis
    proof (cases "k < executed b1")
      case True
      then have "fst (insert_names (Some k) now n p names ?b0) = Some OperationalError"
        using f by blast
      then obtain b2 where "insert_names (Some k) now n p names ?b0 = (Some OperationalError, b2)"
        by (metis prod.collapse)
      then have "fst (save_items (Some k) now (item # rest) b) = Some OperationalError"
        using lt by (simp add: item)
      moreover have "k < executed (snd (save_items None now (item # rest) b))"
        unfolding step using True m1 by simp
      ultimately show ?thesis by simp
    next
      case False
      then have le1: "executed b1 \<le> k" by simp
      then have "insert_names (Some k) now n p names ?b0 = insert_names None now n p names ?b0"
        using f by blast
      then have "insert_names (Some k) now n p names ?b0 = (None, b1)"
        using ins by simp
      then have k0: "save_items (Some k) now (item # rest) b = save_items (Some k) now rest b1"
        using lt by (simp add: item)
      show ?thesis unfolding step k0 using Cons.IH [OF le1] .
    qed
  qed
qed

lemma save_mappings_fault_raised:
  "k \<le> batch_statements now ms s \<Longrightarrow> fst (save_mappings (Some k) now ms s) = Inl OperationalError"
proof -
  assume k: "k \<le> batch_statements now ms s"
  have z: "executed (start_batch s) \<le> k" by (simp add: start_batch_def)
  note f = save_items_fault [OF z, of now ms]
  show ?thesis
  proof (cases "k < batch_statements now ms s")
    case True
    then have "fst (save_items (Some k) now ms (start_batch s)) = Some OperationalError"
      using f by (simp add: batch_statements_def)
    then obtain b where "save_items (Some k) now ms (start_batch s) = (Some OperationalError, b)"
      by (metis prod.collapse)
    then show ?thesis by (simp add: save_mappings_def start_batch_def [symmetric])
  next
    case False
    with k have e: "k = batch_statements now ms s" by simp
    then have "save_items (Some k) now ms (start_batch s) = save_items None now ms (start_batch s)"
      using f by (simp add: batch_statements_def)
    moreover obtain b where sb: "save_items None now ms (start_batch s) = (None, b)"
      using save_items_ok [of now ms "start_batch s"] by (metis prod.collapse)
    ultimately have "save_items (Some k) now ms (start_batch s) = (None, b)" by simp
    moreover have "k = executed b" using e sb by (simp add: batch_statements_def)
    ultimately show ?thesis by (simp add: save_mappings_def start_batch_def [symmetric])
  qed
qed

lemma table_rows_init: "table_rows (Some (init_database s)) = table_rows s"
  by (cases s) (simp_all add: table_rows_def init_database_def)

lemma load_mappings_rows:
  "table_rows s = table_rows s' \<Longrightarrow> load_mappings s = load_mappings s'"
  by (rule ext) (simp add: load_mappings_lookup)

text \<open>
  C6. When \<open>save_mappings\<close> raises, the store holds what it held before the batch: the
  table has the same rows, \<open>load_mappings\<close> and \<open>get_all_mappings_count\<close> return what
  they returned before the call (a database file that did not exist has been created by
  \<open>init_database\<close>, with an empty table). Whichever statement of the batch fails, the
  final \<open>commit\<close> included, the call raises that failure; and a call in which no
  statement fails returns a count.
\<close>

theorem save_mappings_rollback:
  "(fst (save_mappings fail_at now ms s) = Inl e \<longrightarrow>
      snd (save_mappings fail_at now ms s) = Some (init_database s)
      \<and> table_rows (snd (save_mappings fail_at now ms s)) = table_rows s
      \<and> load_mappings (snd (save_mappings fail_at now ms s)) = load_mappings s
      \<and> get_all_mappings_count (snd (save_mappings fail_at now ms s)) = get_all_mappings_count s)
   \<and> (k \<le> batch_statements now ms s \<longrightarrow>
        fst (save_mappings (Some k) now ms s) = Inl OperationalError)
   \<and> (\<exists>c. fst (save_mappings None now ms s) = Inr c)"
proof -
  have a: "snd (save_mappings fail_at now ms s) = Some (init_database s)
      \<and> table_rows (snd (save_mappings fail_at now ms s)) = table_rows s
      \<and> load_mappings (snd (save_mappings fail_at now ms s)) = load_mappings s
      \<and> get_all_mappings_count (snd (save_mappings fail_at now ms s)) = get_all_mappings_count s"
    if f: "fst (save_mappings fail_at now ms s) = Inl e"
  proof -
    have st: "snd (save_mappings fail_at now ms s) = Some (init_database s)"
      using f by (rule save_mappings_failed_store)
    then have r: "table_rows (snd (save_mappings fail_at now ms s)) = table_rows s"
      by (simp add: table_rows_init)
    from r have "load_mappings (snd (save_mappings fail_at now ms s)) = load_mappings s"
      by (rule load_mappings_rows)
    with st r show ?thesis by (simp add: count_table_rows)
  qed
  have b: "fst (save_mappings (Some k) now ms s) = Inl OperationalError"
    if "k \<le> batch_statements now ms s"
    using that by (rule save_mappings_fault_raised)
  have c: "\<exists>c. fst (save_mappings None now ms s) = Inr c"
    by (simp add: save_mappings_ok)
  from a b c show ?thesis by blast
qed

lemma ex_statements: "batch_statements [50] ex_ms2 ex_store1 = 3"
  by code_simp

lemma ex_fault: "save_mappings (Some 2) [50] ex_ms2 ex_store1 = (Inl OperationalError, ex_store1)"
  by code_simp

theorem save_mappings_rollback_witness:
  "(2 :: nat) \<le> batch_statements [50] ex_ms2 ex_store1
   \<and> save_mappings (Some 2) [50] ex_ms2 ex_store1 = (Inl OperationalError, ex_store1)
   \<and> table_rows (snd (save_mappings (Some 2) [50] ex_ms2 ex_store1)) = table_rows ex_store1
   \<and> load_mappings (snd (save_mappings (Some 2) [50] ex_ms2 ex_store1)) = load_mappings ex_store1"
proof -
  have h: "(2 :: nat) \<le> batch_statements [50] ex_ms2 ex_store1"
    by (simp add: ex_statements)
  note t = save_mappings_rollback [of "Some 2" "[50]" ex_ms2 ex_store1 OperationalError 2]
  have f: "fst (save_mappings (Some 2) [50] ex_ms2 ex_store1) = Inl OperationalError"
    using t [THEN conjunct2, THEN conjunct1, rule_format, OF h] .
  note r = t [THEN conjunct1, rule_format, OF f]
  have a: "table_rows (snd (save_mappings (Some 2) [50] ex_ms2 ex_store1)) = table_rows ex_store1"
    using r by (rule conjunct2 [THEN conjunct1])
  have b: "load_mappings (snd (save_mappings (Some 2) [50] ex_ms2 ex_store1)) = load_mappings ex_store1"
    using r by (rule conjunct2 [THEN conjunct2, THEN conjunct1])
  show ?thesis
    by (intro conjI) (rule h ex_fault a b)+
qed

end
